theory Spec2Isabelle
  imports Main "HOL-Library.Word"
begin

unbundle bit_operations_syntax

section \<open>Machine types, errors and the external collaborators\<close>

text \<open>
  The development embeds \<^verbatim>\<open>src/shogun/features/StringFeatures.cpp\<close>, the class
  template \<^verbatim>\<open>CStringFeatures<ST>\<close>.  The symbol type \<^verbatim>\<open>ST\<close> of the integer
  instantiations is a machine word \<open>'a word\<close>; bytes are \<open>8 word\<close>.  Lengths, counts
  and positions are \<^verbatim>\<open>int32_t\<close> in the source and \<open>int\<close> here (sizes stay far below
  \<open>2^31\<close>, no claim depends on their wrap-around); loop counters that start at \<open>0\<close>
  are \<open>nat\<close>.
\<close>

type_synonym uint8 = "8 word"

text \<open>
  \<^verbatim>\<open>error(...)\<close> and \<^verbatim>\<open>require(...)\<close> throw a \<^verbatim>\<open>ShogunException\<close>, a failed
  \<^verbatim>\<open>ASSERT\<close> throws as well, \<^verbatim>\<open>not_implemented\<close> throws, and \<^verbatim>\<open>io::to_system_error\<close>
  is thrown for a file-system error code.  An access outside an allocated buffer is
  undefined behaviour in C++; the model stops there with \<open>OutOfBounds\<close>.
\<close>

datatype error = ShogunException | AssertionFailed | NotImplemented | SystemError | OutOfBounds

text \<open>
  Modelled from the spec: \<^verbatim>\<open>CAlphabet\<close> (class absent from the sources; spec sections 3
  and 6).  The state of an alphabet object is its kind and its byte histogram.  What the
  class computes from the kind (bits per symbol, number of symbols, the two remapping
  tables, validity of a byte) and its two histogram checks are not in the sources and
  are taken as the parameter \<open>alphabet_class\<close>.
\<close>

type_synonym EAlphabet = uint8

record CAlphabet =
  alphabet_kind :: EAlphabet
  histogram :: "uint8 \<Rightarrow> nat"

record alphabet_class =
  DNA :: EAlphabet
  num_symbols_of :: "EAlphabet \<Rightarrow> nat"
  num_bits_of :: "EAlphabet \<Rightarrow> nat"
  to_bin_of :: "EAlphabet \<Rightarrow> uint8 \<Rightarrow> uint8"
  to_char_of :: "EAlphabet \<Rightarrow> uint8 \<Rightarrow> uint8"
  valid_of :: "EAlphabet \<Rightarrow> uint8 \<Rightarrow> bool"
  check_alphabet_size :: "CAlphabet \<Rightarrow> bool"
  check_alphabet :: "CAlphabet \<Rightarrow> bool"

definition new_CAlphabet :: "EAlphabet \<Rightarrow> CAlphabet" where
  "new_CAlphabet k = \<lparr>alphabet_kind = k, histogram = (\<lambda>_. 0)\<rparr>"

definition get_alphabet :: "CAlphabet \<Rightarrow> EAlphabet" where
  "get_alphabet a = alphabet_kind a"

definition get_num_symbols_a :: "alphabet_class \<Rightarrow> CAlphabet \<Rightarrow> nat" where
  "get_num_symbols_a C a = num_symbols_of C (alphabet_kind a)"

definition get_num_bits :: "alphabet_class \<Rightarrow> CAlphabet \<Rightarrow> nat" where
  "get_num_bits C a = num_bits_of C (alphabet_kind a)"

definition remap_to_bin :: "alphabet_class \<Rightarrow> CAlphabet \<Rightarrow> uint8 \<Rightarrow> uint8" where
  "remap_to_bin C a c = to_bin_of C (alphabet_kind a) c"

definition remap_to_char :: "alphabet_class \<Rightarrow> CAlphabet \<Rightarrow> uint8 \<Rightarrow> uint8" where
  "remap_to_char C a c = to_char_of C (alphabet_kind a) c"

definition is_valid :: "alphabet_class \<Rightarrow> CAlphabet \<Rightarrow> uint8 \<Rightarrow> bool" where
  "is_valid C a c = valid_of C (alphabet_kind a) c"

text \<open>\<^verbatim>\<open>add_string_to_histogram(p, len)\<close>: one count per element, each cast to a byte.\<close>

definition add_byte_to_histogram :: "uint8 \<Rightarrow> CAlphabet \<Rightarrow> CAlphabet" where
  "add_byte_to_histogram b a = a\<lparr>histogram := (histogram a)(b := histogram a b + 1)\<rparr>"

definition add_string_to_histogram :: "'a::len word list \<Rightarrow> CAlphabet \<Rightarrow> CAlphabet" where
  "add_string_to_histogram p a = fold (\<lambda>x. add_byte_to_histogram (ucast x)) p a"

definition all_bytes :: "uint8 list" where
  "all_bytes = map of_nat [0..<256]"

definition get_num_symbols_in_histogram :: "CAlphabet \<Rightarrow> nat" where
  "get_num_symbols_in_histogram a = length (filter (\<lambda>b. 0 < histogram a b) all_bytes)"

text \<open>
  Modelled from the spec: \<^verbatim>\<open>SGVector<ST>\<close> (absent from the sources; spec section 3, a
  Sequence is "an ordered array of fixed-width symbol codes plus a length; exclusively
  owned by its slot").  \<open>vector\<close> holds the cells reachable from the data pointer and
  \<open>vlen\<close> the declared length, which the source assigns on its own in places.
  \<^verbatim>\<open>SGVector<ST>(len)\<close> allocates \<open>len\<close> cells whose contents are indeterminate: the
  model fills them with the parameter \<open>uninit\<close>.  \<^verbatim>\<open>slice(l, h)\<close> is the part from \<open>l\<close>
  with declared length \<open>h - l\<close>.
\<close>

record 'a SGVector =
  vector :: "'a list"
  vlen :: int

definition SGVector_of :: "'a list \<Rightarrow> 'a SGVector" where
  "SGVector_of xs = \<lparr>vector = xs, vlen = int (length xs)\<rparr>"

definition SGVector_alloc :: "'a \<Rightarrow> int \<Rightarrow> 'a SGVector" where
  "SGVector_alloc uninit len = \<lparr>vector = replicate (nat len) uninit, vlen = len\<rparr>"

definition SGVector_empty :: "'a SGVector" where
  "SGVector_empty = \<lparr>vector = [], vlen = 0\<rparr>"

definition slice :: "'a SGVector \<Rightarrow> int \<Rightarrow> int \<Rightarrow> 'a SGVector" where
  "slice v l h = \<lparr>vector = drop (nat l) (vector v), vlen = h - l\<rparr>"

definition elements :: "'a SGVector \<Rightarrow> 'a list" where
  "elements v = take (nat (vlen v)) (vector v)"

section \<open>The sequence store\<close>

text \<open>
  The members of \<^verbatim>\<open>CStringFeatures<ST>\<close> (\<^verbatim>\<open>init()\<close>, lines 1518-1555).
  \<open>single_string\<close> is \<open>None\<close> when \<^verbatim>\<open>single_string.vector\<close> is the null pointer.
  \<open>num_symbols\<close> is a \<^verbatim>\<open>floatmax_t\<close> in the source; it only ever holds a symbol count or
  a power of two and is a \<open>nat\<close> here.

  Modelled from the spec: \<^verbatim>\<open>CSubsetStack\<close> (absent from the sources; spec section 4.2):
  a stack of index arrays, the most recent first; the empty stack is the identity.
\<close>

record 'a CStringFeatures =
  features :: "'a SGVector list"
  single_string :: "'a SGVector option"
  alphabet :: CAlphabet
  m_subset_stack :: "nat list list"
  order :: int
  num_symbols :: nat
  original_num_symbols :: nat
  symbol_mask_table :: "'a list"
  preprocess_on_get :: bool

type_synonym ('a, 'r) outcome = "(error + 'r) \<times> 'a CStringFeatures"

definition has_subsets :: "'a CStringFeatures \<Rightarrow> bool" where
  "has_subsets st = (m_subset_stack st \<noteq> [])"

definition get_size :: "'a CStringFeatures \<Rightarrow> int" where
  "get_size st = (case m_subset_stack st of [] \<Rightarrow> 0 | p # _ \<Rightarrow> int (length p))"

definition subset_idx_conversion :: "'a CStringFeatures \<Rightarrow> nat \<Rightarrow> nat" where
  "subset_idx_conversion st i = fold (\<lambda>p j. p ! j) (m_subset_stack st) i"

definition remove_all_subsets :: "'a CStringFeatures \<Rightarrow> 'a CStringFeatures" where
  "remove_all_subsets st = st\<lparr>m_subset_stack := []\<rparr>"

definition get_num_vectors :: "'a CStringFeatures \<Rightarrow> int" where
  "get_num_vectors st = (if has_subsets st then get_size st else int (length (features st)))"

definition get_max_vector_length :: "'a CStringFeatures \<Rightarrow> int" where
  "get_max_vector_length st =
     fold (\<lambda>i max_string_length.
             max max_string_length (vlen (features st ! subset_idx_conversion st i)))
          [0..<nat (get_num_vectors st)] 0"

text \<open>\<^verbatim>\<open>cleanup_feature_vectors\<close> (lines 127-140) and \<^verbatim>\<open>cleanup\<close> (lines 87-117).\<close>

definition cleanup_feature_vectors ::
  "'a CStringFeatures \<Rightarrow> int \<Rightarrow> int \<Rightarrow> ('a, unit) outcome" where
  "cleanup_feature_vectors st start stop =
     (if get_num_vectors st \<noteq> 0 then
        if \<not> stop < get_num_vectors st then (Inl AssertionFailed, st)
        else if \<not> (stop \<ge> start \<and> start \<ge> 0) then (Inl AssertionFailed, st)
        else (Inr (),
              fold (\<lambda>i s. s\<lparr>features := (features s)[subset_idx_conversion s i := SGVector_empty]\<rparr>)
                   [nat start..<nat (stop + 1)] st)
      else (Inr (), st))"

definition cleanup :: "'a CStringFeatures \<Rightarrow> ('a, unit) outcome" where
  "cleanup st0 =
     (let st1 = remove_all_subsets st0;
          r = (if single_string st1 \<noteq> None then (Inr (), st1\<lparr>single_string := None\<rparr>)
               else cleanup_feature_vectors st1 0 (get_num_vectors st1 - 1))
      in case r of
           (Inl e, st2) \<Rightarrow> (Inl e, st2)
         | (Inr _, st2) \<Rightarrow>
             (Inr (), st2\<lparr>features := [], symbol_mask_table := [],
                          alphabet := new_CAlphabet (get_alphabet (alphabet st2))\<rparr>))"

section \<open>KmerEmbedder: \<^verbatim>\<open>embed_word\<close> and \<^verbatim>\<open>unembed_word\<close>\<close>

text \<open>
  \<^verbatim>\<open>mask = (mask << 1) | 1\<close>, repeated \<open>n\<close> times from \<open>0\<close> (lines 1216-1218 and
  1279-1281).
\<close>

definition all_ones :: "nat \<Rightarrow> 'a::len word" where
  "all_ones n = fold (\<lambda>i m. push_bit 1 m OR 1) [0..<n] 0"

text \<open>
  \<^verbatim>\<open>>>\<close> on \<^verbatim>\<open>ST\<close> is an arithmetic shift for the signed instantiations (\<^verbatim>\<open>char\<close>,
  \<^verbatim>\<open>int16_t\<close>, \<^verbatim>\<open>int32_t\<close>, \<^verbatim>\<open>int64_t\<close>) and a logical shift for the unsigned ones; the
  flag says which instantiation is meant.
\<close>

definition shift_right :: "bool \<Rightarrow> nat \<Rightarrow> 'a::len word \<Rightarrow> 'a word" where
  "shift_right is_signed n w = (if is_signed then signed_drop_bit n w else drop_bit n w)"

text \<open>
  \<^verbatim>\<open>embed_word(seq, len)\<close>, lines 1291-1302.  The caller passes a buffer with at least
  \<open>len\<close> readable cells.
\<close>

definition embed_word ::
  "alphabet_class \<Rightarrow> 'a::len word CStringFeatures \<Rightarrow> 'a word list \<Rightarrow> nat \<Rightarrow> 'a word" where
  "embed_word C st seq len =
     (let nbits = get_num_bits C (alphabet st)
      in fold (\<lambda>i v. push_bit nbits v OR seq ! i) [0..<len] 0)"

text \<open>
  \<^verbatim>\<open>unembed_word(word, seq, len)\<close>, lines 1275-1289; \<open>unembed_step\<close> is the body of its
  second loop, on the pair of the shrinking word and the output buffer.  The caller
  passes an output buffer with at least \<open>len\<close> cells.
\<close>

definition unembed_step ::
  "bool \<Rightarrow> nat \<Rightarrow> (uint8 \<Rightarrow> uint8) \<Rightarrow> nat \<Rightarrow> nat
     \<Rightarrow> 'a::len word \<times> uint8 list \<Rightarrow> 'a word \<times> uint8 list" where
  "unembed_step is_signed nbits to_char len i = (\<lambda>(word, seq).
     let w = word AND all_ones nbits
     in (shift_right is_signed nbits word, seq[len - i - 1 := to_char (ucast w)]))"

definition unembed_word ::
  "alphabet_class \<Rightarrow> bool \<Rightarrow> 'a::len word CStringFeatures \<Rightarrow> 'a word \<Rightarrow> uint8 list \<Rightarrow> nat
     \<Rightarrow> uint8 list" where
  "unembed_word C is_signed st word seq len =
     (let nbits = get_num_bits C (alphabet st)
      in snd (fold (unembed_step is_signed nbits (remap_to_char C (alphabet st)) len)
                [0..<len] (word, seq)))"

text \<open>
  \<^verbatim>\<open>compute_symbol_mask_table(max_val)\<close>, lines 1249-1273.  The mask is a
  \<^verbatim>\<open>uint64_t\<close>; entry \<open>i\<close> of the table collects the mask shifted to every symbol
  position \<open>j\<close> whose bit is set in the byte \<open>i\<close>, and is stored in an \<^verbatim>\<open>ST\<close>.
\<close>

definition symbol_mask_entry :: "int \<Rightarrow> 64 word \<Rightarrow> nat \<Rightarrow> 'a::len word" where
  "symbol_mask_entry max_val msk i =
     snd (fold (\<lambda>j (bits, entry).
                  (drop_bit 1 bits,
                   if bits AND 1 \<noteq> 0
                   then entry OR ucast (push_bit (nat (max_val * int j)) msk)
                   else entry))
               [0..<8] (of_nat i :: uint8, 0))"

definition compute_symbol_mask_table ::
  "'a::len word CStringFeatures \<Rightarrow> int \<Rightarrow> ('a word, unit) outcome" where
  "compute_symbol_mask_table st max_val =
     (if has_subsets st then (Inl NotImplemented, st)
      else let msk = (all_ones (nat max_val) :: 64 word)
           in (Inr (), st\<lparr>symbol_mask_table := map (symbol_mask_entry max_val msk) [0..<256]\<rparr>))"

text \<open>
  \<^verbatim>\<open>embed_features(p_order)\<close>, lines 1195-1247.  \<open>remap_cell\<close> is
  \<^verbatim>\<open>(ST) alphabet->remap_to_bin(str[j])\<close>, whose argument and result are bytes.
  \<open>embed_vector\<close> is the body of the loop over the vectors, which works in place on
  the cells \<open>str\<close> of one vector: the first \<open>p_order\<close> cells are remapped and packed
  into \<open>str[0]\<close>, then every further cell \<open>j\<close> is remapped and the rolling code is
  written to \<open>str[idx+1]\<close>, \<open>idx = j - p_order\<close> (\<open>embed_step\<close>, the body of that
  loop).  These loops touch the cells below
  \<open>len\<close> when \<open>p_order \<ge> 1\<close>; for \<open>p_order = 0\<close> they write \<open>str[len]\<close>, and for a
  negative \<open>p_order\<close> they start at a negative index: \<open>embed_in_bounds\<close> says whether
  every cell touched is a cell of the buffer.  \<open>embed_loop\<close> is the loop over the
  vectors; a vector shorter than \<open>p_order\<close> throws, the vectors before it are
  already rewritten.
\<close>

definition remap_cell :: "alphabet_class \<Rightarrow> CAlphabet \<Rightarrow> 'a::len word \<Rightarrow> 'a word" where
  "remap_cell C a x = ucast (remap_to_bin C a (ucast x))"

definition embed_in_bounds :: "int \<Rightarrow> int \<Rightarrow> int \<Rightarrow> bool" where
  "embed_in_bounds p_order len cells =
     (if p_order \<ge> 1 then len \<le> cells
      else if p_order = 0 then len + 1 \<le> cells
      else len = p_order \<and> 1 \<le> cells)"

definition embed_step ::
  "('a::len word \<Rightarrow> 'a word) \<Rightarrow> nat \<Rightarrow> nat \<Rightarrow> 'a word \<Rightarrow> nat \<Rightarrow> 'a word list \<Rightarrow> 'a word list" where
  "embed_step remap p_order max_val msk j str =
     (let idx = j - p_order;
          str' = str[j := remap (str ! j)]
      in str'[idx + 1 := (push_bit max_val (str' ! idx) OR str' ! j) AND msk])"

definition embed_vector ::
  "alphabet_class \<Rightarrow> 'a::len word CStringFeatures \<Rightarrow> int \<Rightarrow> nat \<Rightarrow> 'a word \<Rightarrow> 'a word SGVector
     \<Rightarrow> error + 'a word SGVector" where
  "embed_vector C st p_order max_val msk v =
     (let len = vlen v
      in if len < p_order then Inl ShogunException
         else if \<not> embed_in_bounds p_order len (int (length (vector v))) then Inl OutOfBounds
         else
           let str1 = fold (\<lambda>j str. str[j := remap_cell C (alphabet st) (str ! j)])
                           [0..<nat p_order] (vector v);
               str2 = str1[0 := embed_word C st str1 (nat p_order)];
               str3 = fold (embed_step (remap_cell C (alphabet st)) (nat p_order) max_val msk)
                           [nat p_order..<nat len] str2
           in Inr \<lparr>vector = str3, vlen = len - p_order + 1\<rparr>)"

fun embed_loop ::
  "alphabet_class \<Rightarrow> 'a::len word CStringFeatures \<Rightarrow> int \<Rightarrow> nat \<Rightarrow> 'a word
     \<Rightarrow> 'a word SGVector list \<Rightarrow> 'a word SGVector list
     \<Rightarrow> error option \<times> 'a word SGVector list" where
  "embed_loop C st p_order max_val msk [] acc = (None, acc)"
| "embed_loop C st p_order max_val msk (v # vs) acc =
     (case embed_vector C st p_order max_val msk v of
        Inl e \<Rightarrow> (Some e, acc @ v # vs)
      | Inr v' \<Rightarrow> embed_loop C st p_order max_val msk vs (acc @ [v']))"

definition embed_features ::
  "alphabet_class \<Rightarrow> 'a::len word CStringFeatures \<Rightarrow> int \<Rightarrow> ('a word, unit) outcome" where
  "embed_features C st p_order =
     (if has_subsets st then (Inl NotImplemented, st)
      else if \<not> get_num_symbols_in_histogram (alphabet st) > 0 then (Inl AssertionFailed, st)
      else
        let st1 = st\<lparr>order := p_order,
                     original_num_symbols := get_num_symbols_a C (alphabet st)\<rparr>;
            max_val = get_num_bits C (alphabet st1);
            st2 = st1\<lparr>num_symbols := (if p_order > 1 then 2 ^ (max_val * nat p_order)
                                       else original_num_symbols st1)\<rparr>;
            msk = all_ones (nat (p_order * int max_val))
        in case embed_loop C st2 p_order max_val msk (features st2) [] of
             (Some e, fs) \<Rightarrow> (Inl e, st2\<lparr>features := fs\<rparr>)
           | (None, fs) \<Rightarrow> compute_symbol_mask_table (st2\<lparr>features := fs\<rparr>) (int max_val))"

text \<open>
  The rolling code of order \<open>k\<close> over the cells \<open>orig\<close>, as the claim describes it:
  the packed first \<open>k\<close> remapped symbols, and from then on the previous code shifted
  by one symbol, joined with the next remapped symbol and masked.
\<close>

fun rolling_code ::
  "alphabet_class \<Rightarrow> 'a::len word CStringFeatures \<Rightarrow> nat \<Rightarrow> 'a word \<Rightarrow> 'a word list \<Rightarrow> nat \<Rightarrow> 'a word" where
  "rolling_code C st k msk orig 0 = embed_word C st (map (remap_cell C (alphabet st)) orig) k"
| "rolling_code C st k msk orig (Suc t) =
     (push_bit (get_num_bits C (alphabet st)) (rolling_code C st k msk orig t)
        OR remap_cell C (alphabet st) (orig ! (t + k))) AND msk"

section \<open>SymbolSequenceStore: \<^verbatim>\<open>set_features\<close>\<close>

text \<open>
  \<^verbatim>\<open>set_features(const SGVector<ST>* p_features, int32_t p_num_vectors)\<close>, lines 779-815.
  The pointer and the count are one optional list: \<open>None\<close> is the null pointer.  The
  histogram is taken of the first \<open>vlen\<close> cells of each input vector.
\<close>

definition set_features ::
  "alphabet_class \<Rightarrow> 'a::len word CStringFeatures \<Rightarrow> 'a word SGVector list option
     \<Rightarrow> ('a word, bool) outcome" where
  "set_features C st p_features =
     (if has_subsets st then (Inl ShogunException, st)
      else case p_features of
        None \<Rightarrow> (Inr False, st)
      | Some ps \<Rightarrow>
          let alpha = fold (\<lambda>v. add_string_to_histogram (elements v)) ps
                        (new_CAlphabet (get_alphabet (alphabet st)))
          in if check_alphabet_size C alpha \<and> check_alphabet C alpha then
               case cleanup st of
                 (Inl e, st1) \<Rightarrow> (Inl e, st1)
               | (Inr _, st1) \<Rightarrow> (Inr True, st1\<lparr>alphabet := alpha, features := ps\<rparr>)
             else (Inr False, st))"

section \<open>WindowExtractor\<close>

text \<open>Integer division of C++ truncates towards zero.\<close>

definition cdiv :: "int \<Rightarrow> int \<Rightarrow> int" where
  "cdiv a b = sgn a * sgn b * (\<bar>a\<bar> div \<bar>b\<bar>)"

text \<open>
  \<^verbatim>\<open>obtain_by_sliding_window(window_size, step_size, skip)\<close>, lines 1075-1110.  The
  local \<^verbatim>\<open>num_vectors\<close> receives the number of windows and is returned; the loop that
  builds the windows runs to \<^verbatim>\<open>get_num_vectors()\<close>, the number of stored vectors.
  \<^verbatim>\<open>features[0]\<close> of an empty \<^verbatim>\<open>std::vector\<close> is out of bounds.
\<close>

definition obtain_by_sliding_window ::
  "'a CStringFeatures \<Rightarrow> int \<Rightarrow> int \<Rightarrow> int \<Rightarrow> ('a, int) outcome" where
  "obtain_by_sliding_window st window_size step_size skip =
     (if has_subsets st then (Inl NotImplemented, st)
      else
        let num_vectors = get_num_vectors st;
            max_string_length = get_max_vector_length st
        in if \<not> step_size > 0 then (Inl AssertionFailed, st)
           else if \<not> window_size > 0 then (Inl AssertionFailed, st)
           else if \<not> (num_vectors = 1 \<or> single_string st \<noteq> None) then (Inl AssertionFailed, st)
           else if \<not> (max_string_length \<ge> window_size \<or>
                        (case single_string st of None \<Rightarrow> False
                         | Some s \<Rightarrow> vlen s \<ge> window_size))
                then (Inl AssertionFailed, st)
           else
             let num_vectors =
                   (case single_string st of
                      Some s \<Rightarrow> cdiv (vlen s - window_size) step_size + 1
                    | None \<Rightarrow> if num_vectors = 1
                               then cdiv (max_string_length - window_size) step_size + 1
                               else num_vectors)
             in if features st = [] then (Inl OutOfBounds, st)
                else
                  let f = map (\<lambda>i. let offs = int i * step_size;
                                       l = offs + skip;
                                       h = min (offs + window_size) (vlen (features st ! 0))
                                   in slice (features st ! 0) l h)
                              [0..<nat (get_num_vectors st)]
                  in (Inr num_vectors,
                      st\<lparr>single_string := Some (features st ! 0), features := f\<rparr>))"

text \<open>
  \<^verbatim>\<open>obtain_by_position_list(window_size, positions, skip)\<close>, lines 1112-1168.
  \<open>positions\<close> is \<open>None\<close> for the null pointer.  \<open>position_loop\<close> is the loop over the
  positions; it returns the windows built, or the index of the first position that does
  not fit.  On that path the source assigns \<^verbatim>\<open>num_vectors=1\<close> (a local),
  \<^verbatim>\<open>features[0].vlen=len\<close> and \<^verbatim>\<open>single_string=SGVector<ST>()\<close> and throws.
\<close>

fun position_loop ::
  "'a SGVector \<Rightarrow> int \<Rightarrow> int \<Rightarrow> int \<Rightarrow> int list \<Rightarrow> 'a SGVector list
     \<Rightarrow> 'a SGVector list option" where
  "position_loop f0 window_size skip len [] f = Some f"
| "position_loop f0 window_size skip len (p # ps) f =
     (if p \<ge> 0 \<and> p \<le> len - window_size then
        let l = p + skip;
            h = min (p + window_size) (vlen f0)
        in position_loop f0 window_size skip len ps
             (f @ [(slice f0 l h)\<lparr>vlen := window_size - skip\<rparr>])
      else None)"

definition obtain_by_position_list ::
  "'a CStringFeatures \<Rightarrow> int \<Rightarrow> int list option \<Rightarrow> int \<Rightarrow> ('a, int) outcome" where
  "obtain_by_position_list st window_size positions skip =
     (if has_subsets st then (Inl NotImplemented, st)
      else
        let num_vectors = get_num_vectors st;
            max_string_length = get_max_vector_length st
        in case positions of
             None \<Rightarrow> (Inl AssertionFailed, st)
           | Some pos \<Rightarrow>
               if \<not> window_size > 0 then (Inl AssertionFailed, st)
               else if \<not> (num_vectors = 1 \<or> single_string st \<noteq> None)
                    then (Inl AssertionFailed, st)
               else if \<not> (max_string_length \<ge> window_size \<or>
                            (case single_string st of None \<Rightarrow> False
                             | Some s \<Rightarrow> vlen s \<ge> window_size))
                    then (Inl AssertionFailed, st)
               else
                 let num_vectors = int (length pos)
                 in if \<not> num_vectors > 0 then (Inl AssertionFailed, st)
                    else if features st = [] then (Inl OutOfBounds, st)
                    else
                      let (st1, len) =
                            (case single_string st of
                               Some s \<Rightarrow> (st, vlen s)
                             | None \<Rightarrow> (st\<lparr>single_string := Some (features st ! 0)\<rparr>,
                                         max_string_length))
                      in case position_loop (features st1 ! 0) window_size skip len pos [] of
                           Some f \<Rightarrow> (Inr num_vectors, st1\<lparr>features := f\<rparr>)
                         | None \<Rightarrow>
                             (Inl ShogunException,
                              st1\<lparr>features := (features st1)[0 := (features st1 ! 0)\<lparr>vlen := len\<rparr>],
                                   single_string := None\<rparr>))"

section \<open>CompressedCodec: \<^verbatim>\<open>save_compressed\<close> and \<^verbatim>\<open>load_compressed\<close>\<close>

text \<open>
  What the two functions use and the sources do not hold is the parameter \<open>codec_env\<close>:
  the object representation of an \<^verbatim>\<open>int32_t\<close> and of an array of \<^verbatim>\<open>ST\<close> (as
  \<^verbatim>\<open>fwrite\<close> and \<^verbatim>\<open>fread\<close> see them), \<^verbatim>\<open>sizeof(ST)\<close>, the preprocessors registered
  with the base class, and the compressor.

  Modelled from the spec: \<^verbatim>\<open>CCompressor\<close> (absent from the sources; spec section 6,
  \<^verbatim>\<open>compress(src,len,level)->(buf,len)\<close> and \<^verbatim>\<open>decompress(src,len,dstBuf,dstLen)\<close>).
  \<open>compress\<close> maps the compression type, the source bytes and the level to the compressed
  bytes.  \<open>decompress\<close> maps the type, the compressed bytes, the destination buffer and
  the size passed by reference to the buffer and the size it leaves.
\<close>

record 'a codec_env =
  sizeof_ST :: nat
  int32_bytes :: "32 word \<Rightarrow> uint8 list"
  bytes_int32 :: "uint8 list \<Rightarrow> 32 word"
  ST_bytes :: "'a list \<Rightarrow> uint8 list"
  bytes_ST :: "uint8 list \<Rightarrow> 'a list"
  preprocessors :: "('a list \<Rightarrow> 'a list) list"
  compress :: "uint8 \<Rightarrow> uint8 list \<Rightarrow> int \<Rightarrow> uint8 list"
  decompress :: "uint8 \<Rightarrow> uint8 list \<Rightarrow> uint8 list \<Rightarrow> 64 word \<Rightarrow> uint8 list \<times> 64 word"

text \<open>
  \<^verbatim>\<open>get_feature_vector(num, len, dofree)\<close>, lines 201-236, and
  \<^verbatim>\<open>compute_feature_vector\<close>, lines 1503-1516: the cells and the length the caller
  receives.  Without on-the-fly preprocessing they are the stored ones; with it they are
  a copy of the first \<open>vlen\<close> cells passed through the preprocessors in order.
\<close>

definition compute_feature_vector :: "'a CStringFeatures \<Rightarrow> nat \<Rightarrow> error + 'a list \<times> int" where
  "compute_feature_vector st num =
     (if \<not> int num < get_num_vectors st then Inl AssertionFailed
      else let real_num = subset_idx_conversion st num;
               len = vlen (features st ! real_num)
           in if len \<le> 0 then Inr ([], len)
              else Inr (take (nat len) (vector (features st ! real_num)), len))"

definition get_feature_vector ::
  "'a codec_env \<Rightarrow> 'a CStringFeatures \<Rightarrow> nat \<Rightarrow> error + 'a list \<times> int" where
  "get_feature_vector E st num =
     (if int num \<ge> get_num_vectors st then Inl ShogunException
      else let real_num = subset_idx_conversion st num
           in if \<not> preprocess_on_get st
              then Inr (vector (features st ! real_num), vlen (features st ! real_num))
              else case compute_feature_vector st num of
                     Inl e \<Rightarrow> Inl e
                   | Inr (feat, len) \<Rightarrow>
                       let feat' = fold (\<lambda>p tmp. p tmp) (preprocessors E) feat
                       in Inr (feat', if preprocessors E = [] then len else int (length feat')))"

text \<open>
  \<^verbatim>\<open>save_compressed(dest, compression, level)\<close>, lines 1012-1073.  \<open>can_open\<close> says
  whether \<^verbatim>\<open>fopen(dest, "wb")\<close> succeeds.  The result is \<open>Inr None\<close> for the return value
  false (nothing written) and \<open>Inr (Some bytes)\<close> for true, \<open>bytes\<close> being the file
  written.  \<open>save_frames\<close> is the loop over the vectors.
\<close>

definition file_header :: "'a codec_env \<Rightarrow> uint8 \<Rightarrow> uint8 \<Rightarrow> int \<Rightarrow> int \<Rightarrow> uint8 list" where
  "file_header E c a num_vectors max_string_length =
     [83, 71, 86, 48] @ [c] @ [a] @ int32_bytes E (of_int num_vectors)
       @ int32_bytes E (of_int max_string_length)"

definition save_frame :: "'a codec_env \<Rightarrow> uint8 \<Rightarrow> int \<Rightarrow> 'a list \<Rightarrow> int \<Rightarrow> uint8 list" where
  "save_frame E compression level vec len =
     (let compressed = compress E compression (ST_bytes E (take (nat len) vec)) level;
          len_compressed = (of_nat (length compressed) :: 32 word)
      in int32_bytes E len_compressed @ int32_bytes E (of_int len) @ compressed)"

fun save_frames ::
  "'a codec_env \<Rightarrow> 'a CStringFeatures \<Rightarrow> uint8 \<Rightarrow> int \<Rightarrow> nat list \<Rightarrow> uint8 list
     \<Rightarrow> error + uint8 list" where
  "save_frames E st compression level [] file = Inr file"
| "save_frames E st compression level (i # is) file =
     (case get_feature_vector E st i of
        Inl e \<Rightarrow> Inl e
      | Inr (vec, len) \<Rightarrow>
          save_frames E st compression level is (file @ save_frame E compression level vec len))"

definition save_compressed ::
  "'a codec_env \<Rightarrow> 'a CStringFeatures \<Rightarrow> bool \<Rightarrow> uint8 \<Rightarrow> int \<Rightarrow> error + uint8 list option" where
  "save_compressed E st can_open compression level =
     (let num_vectors = get_num_vectors st;
          max_string_length = get_max_vector_length st
      in if has_subsets st then Inl ShogunException
         else if \<not> can_open then Inr None
         else
           case save_frames E st compression level [0..<nat num_vectors]
                  (file_header E compression (get_alphabet (alphabet st))
                     num_vectors max_string_length) of
             Inl e \<Rightarrow> Inl e
           | Inr file \<Rightarrow> Inr (Some file))"

text \<open>
  \<^verbatim>\<open>load_compressed(src, decompress)\<close>, lines 918-1010.  \<open>file\<close> is \<open>None\<close> when
  \<^verbatim>\<open>fopen(src, "r")\<close> fails, and the bytes of the file otherwise.  \<open>fread_bytes n\<close> reads
  \<open>n\<close> bytes or fails on a short file; \<open>fread_int32\<close> reads one \<^verbatim>\<open>int32_t\<close>.
  \<open>read_id\<close>, \<open>read_byte\<close> and \<open>read_positive\<close> are the reads of the header, each
  with the check that follows it, and \<open>load_body\<close> is the function from the two counts
  on.  \<open>load_frames\<close> is the loop over the frames, on the bytes still unread and the vectors
  loaded so far; it returns the error of the frame that fails, if one does, and the
  vectors.  Between \<^verbatim>\<open>delete alphabet\<close> and the next assignment of \<^verbatim>\<open>alphabet\<close> the
  member dangles; the model keeps the old value there.
\<close>

definition fread_bytes :: "nat \<Rightarrow> uint8 list \<Rightarrow> (uint8 list \<times> uint8 list) option" where
  "fread_bytes n file = (if n \<le> length file then Some (take n file, drop n file) else None)"

definition fread_int32 :: "'a codec_env \<Rightarrow> uint8 list \<Rightarrow> (32 word \<times> uint8 list) option" where
  "fread_int32 E file =
     (case fread_bytes 4 file of None \<Rightarrow> None | Some (b, rest) \<Rightarrow> Some (bytes_int32 E b, rest))"

definition overwrite :: "'b list \<Rightarrow> nat \<Rightarrow> 'b list \<Rightarrow> 'b list" where
  "overwrite buf pos src = take pos buf @ src @ drop (pos + length src) buf"

definition load_frame ::
  "'a codec_env \<Rightarrow> 'a \<Rightarrow> bool \<Rightarrow> uint8 \<Rightarrow> uint8 list
     \<Rightarrow> error option \<times> 'a SGVector option \<times> uint8 list" where
  "load_frame E uninit decomp c file =
     (case fread_int32 E file of
        None \<Rightarrow> (Some ShogunException, None, file)
      | Some (len_compressed, file1) \<Rightarrow>
          case fread_int32 E file1 of
            None \<Rightarrow> (Some ShogunException, None, file1)
          | Some (len_uncompressed, file2) \<Rightarrow>
              if decomp then
                let v = SGVector_alloc uninit (sint len_uncompressed)
                in if sint len_compressed < 0 then (Some ShogunException, Some v, file2)
                   else case fread_bytes (nat (sint len_compressed)) file2 of
                     None \<Rightarrow> (Some ShogunException, Some v, file2)
                   | Some (compressed, file3) \<Rightarrow>
                       let uncompressed_size =
                             (scast len_uncompressed :: 64 word) * of_nat (sizeof_ST E);
                           (dst, uncompressed_size') =
                             decompress E c compressed (ST_bytes E (vector v)) uncompressed_size;
                           v' = v\<lparr>vector := bytes_ST E dst\<rparr>
                       in if uncompressed_size'
                               \<noteq> (scast len_uncompressed :: 64 word) * of_nat (sizeof_ST E)
                          then (Some AssertionFailed, Some v', file3)
                          else (None, Some v', file3)
              else
                let offs = (8 + sizeof_ST E - 1) div sizeof_ST E;
                    v = SGVector_alloc uninit (sint len_compressed + int offs);
                    image = overwrite (ST_bytes E (vector v)) 0
                              (int32_bytes E len_compressed @ int32_bytes E len_uncompressed)
                in if sint len_compressed < 0
                   then (Some ShogunException, Some (v\<lparr>vector := bytes_ST E image\<rparr>), file2)
                   else case fread_bytes (nat (sint len_compressed)) file2 of
                     None \<Rightarrow> (Some ShogunException, Some (v\<lparr>vector := bytes_ST E image\<rparr>), file2)
                   | Some (compressed, file3) \<Rightarrow>
                       (None,
                        Some (v\<lparr>vector := bytes_ST E (overwrite image (offs * sizeof_ST E) compressed)\<rparr>),
                        file3))"

fun load_frames ::
  "'a codec_env \<Rightarrow> 'a \<Rightarrow> bool \<Rightarrow> uint8 \<Rightarrow> nat \<Rightarrow> uint8 list \<Rightarrow> 'a SGVector list
     \<Rightarrow> error option \<times> 'a SGVector list" where
  "load_frames E uninit decomp c 0 file fs = (None, fs)"
| "load_frames E uninit decomp c (Suc n) file fs =
     (case load_frame E uninit decomp c file of
        (Some e, None, _) \<Rightarrow> (Some e, fs)
      | (Some e, Some v, _) \<Rightarrow> (Some e, fs @ [v])
      | (None, None, _) \<Rightarrow> (Some OutOfBounds, fs)
      | (None, Some v, rest) \<Rightarrow> load_frames E uninit decomp c n rest (fs @ [v]))"

text \<open>
  The header: the four identification characters, each read and then asserted; the
  compression type and the alphabet kind; the two counts, each read and then asserted
  positive.
\<close>

fun read_id :: "uint8 list \<Rightarrow> uint8 list \<Rightarrow> error + uint8 list" where
  "read_id [] file = Inr file"
| "read_id (x # xs) file =
     (case fread_bytes 1 file of
        None \<Rightarrow> Inl ShogunException
      | Some (b, rest) \<Rightarrow> if b \<noteq> [x] then Inl AssertionFailed else read_id xs rest)"

definition read_byte :: "uint8 list \<Rightarrow> error + uint8 \<times> uint8 list" where
  "read_byte file =
     (case fread_bytes 1 file of
        None \<Rightarrow> Inl ShogunException
      | Some (b, rest) \<Rightarrow> Inr (hd b, rest))"

definition read_positive :: "'a codec_env \<Rightarrow> uint8 list \<Rightarrow> error + 32 word \<times> uint8 list" where
  "read_positive E file =
     (case fread_int32 E file of
        None \<Rightarrow> Inl ShogunException
      | Some (n, rest) \<Rightarrow> if \<not> sint n > 0 then Inl AssertionFailed else Inr (n, rest))"

definition load_body ::
  "'a codec_env \<Rightarrow> 'a \<Rightarrow> bool \<Rightarrow> uint8 \<Rightarrow> 'a CStringFeatures \<Rightarrow> uint8 list \<Rightarrow> ('a, bool) outcome" where
  "load_body E uninit decomp c st3 b6 =
     (case read_positive E b6 of
        Inl e \<Rightarrow> (Inl e, st3)
      | Inr (num_vectors, b7) \<Rightarrow>
          (case read_positive E b7 of
             Inl e \<Rightarrow> (Inl e, st3)
           | Inr (max_string_length, b8) \<Rightarrow>
               (case load_frames E uninit decomp c (nat (sint num_vectors)) b8 [] of
                  (Some e, fs) \<Rightarrow> (Inl e, st3\<lparr>features := fs\<rparr>)
                | (None, fs) \<Rightarrow> (Inr False, st3\<lparr>features := fs\<rparr>))))"

definition load_compressed ::
  "'a codec_env \<Rightarrow> 'a \<Rightarrow> 'a CStringFeatures \<Rightarrow> uint8 list option \<Rightarrow> bool \<Rightarrow> ('a, bool) outcome" where
  "load_compressed E uninit st0 file decomp =
     (let st1 = remove_all_subsets st0
      in case file of
           None \<Rightarrow> (Inr False, st1)
         | Some bytes \<Rightarrow>
             (case cleanup st1 of
                (Inl e, st2) \<Rightarrow> (Inl e, st2)
              | (Inr _, st2) \<Rightarrow>
                  (case read_id [83, 71, 86, 48] bytes of
                     Inl e \<Rightarrow> (Inl e, st2)
                   | Inr b4 \<Rightarrow>
                       (case read_byte b4 of
                          Inl e \<Rightarrow> (Inl e, st2)
                        | Inr (c, b5) \<Rightarrow>
                            (case read_byte b5 of
                               Inl e \<Rightarrow> (Inl e, st2)
                             | Inr (a, b6) \<Rightarrow>
                                 load_body E uninit decomp c
                                   (st2\<lparr>alphabet := new_CAlphabet a\<rparr>) b6)))))"

section \<open>FormatLoader: \<^verbatim>\<open>load_fastq_file\<close>\<close>

text \<open>
  Modelled from the spec: \<^verbatim>\<open>CMemoryMappedFile\<close> (absent from the sources; spec section 6,
  the byte source with \<^verbatim>\<open>get_line(offset)->(bytes,len,newOffset)\<close> and \<^verbatim>\<open>line_count()\<close>).
  The mapped file is the list of its lines and an offset is the number of lines before
  it, \<open>0\<close> being the start.  \<open>get_line\<close> returns the line, its length and the offset of
  the next line; past the last line it returns no line.
\<close>

type_synonym mapped_file = "uint8 list list"

definition get_line :: "mapped_file \<Rightarrow> nat \<Rightarrow> uint8 list option \<times> nat \<times> nat" where
  "get_line f offs =
     (if offs < length f then (Some (f ! offs), length (f ! offs), offs + 1)
      else (None, 0, length f))"

definition get_num_lines :: "mapped_file \<Rightarrow> int" where
  "get_num_lines f = int (length f)"

text \<open>
  \<^verbatim>\<open>load_fastq_file(fname, ignore_invalid, bitremap_in_single_string)\<close>, lines 609-704.
  \<open>fastq_read\<close> is the body of the loop over the reads, on the offset and the vectors
  built so far: the identifier line, the read (rejected when empty), then either the
  packing of the read into cell \<open>i\<close> of the one aggregate vector (the read must have
  the length \<open>order\<close>, set from the first read before the loop) or the copy of the read
  into vector \<open>i\<close>, and the two quality lines.  The local \<^verbatim>\<open>max_len\<close> is written and
  never read, and is left out.  When the loop throws, the vectors built are dropped and
  the store is the cleaned one.  \<open>packed_read\<close> is the code of one read, for the
  statements below.
\<close>

definition fastq_read ::
  "alphabet_class \<Rightarrow> 'a::len word CStringFeatures \<Rightarrow> mapped_file \<Rightarrow> bool \<Rightarrow> bool \<Rightarrow> nat
     \<Rightarrow> nat \<times> 'a word SGVector list \<Rightarrow> error + nat \<times> 'a word SGVector list" where
  "fastq_read C st f ignore_invalid bitremap_in_single_string i = (\<lambda>(offs, strings).
     case get_line f offs of
       (None, _, _) \<Rightarrow> Inl ShogunException
     | (Some _, _, offs1) \<Rightarrow>
         (case get_line f offs1 of
            (None, _, _) \<Rightarrow> Inl ShogunException
          | (Some s, len, offs2) \<Rightarrow>
              if len = 0 then Inl ShogunException
              else
                let r = (if bitremap_in_single_string then
                           if int len \<noteq> order st then Inl ShogunException
                           else
                             let str = map (\<lambda>j. ucast (remap_to_bin C (alphabet st) (s ! j)))
                                           [0..<nat (order st)]
                             in Inr (strings[0 := (strings ! 0)
                                       \<lparr>vector := (vector (strings ! 0))
                                                    [i := embed_word C st str (nat (order st))]\<rparr>])
                         else
                           Inr (strings[i :=
                                  \<lparr>vector = map (\<lambda>c. if ignore_invalid \<and> \<not> is_valid C (alphabet st) c
                                                       then 65 else ucast c) s,
                                   vlen = int len\<rparr>]))
                in case r of
                     Inl e \<Rightarrow> Inl e
                   | Inr strings' \<Rightarrow>
                       (case get_line f offs2 of
                          (None, _, _) \<Rightarrow> Inl ShogunException
                        | (Some _, _, offs3) \<Rightarrow>
                            (case get_line f offs3 of
                               (None, _, _) \<Rightarrow> Inl ShogunException
                             | (Some _, _, offs4) \<Rightarrow> Inr (offs4, strings')))))"

fun fastq_loop ::
  "alphabet_class \<Rightarrow> 'a::len word CStringFeatures \<Rightarrow> mapped_file \<Rightarrow> bool \<Rightarrow> bool \<Rightarrow> nat list
     \<Rightarrow> nat \<times> 'a word SGVector list \<Rightarrow> error + nat \<times> 'a word SGVector list" where
  "fastq_loop C st f ignore_invalid bitremap [] state = Inr state"
| "fastq_loop C st f ignore_invalid bitremap (i # is) state =
     (case fastq_read C st f ignore_invalid bitremap i state of
        Inl e \<Rightarrow> Inl e
      | Inr state' \<Rightarrow> fastq_loop C st f ignore_invalid bitremap is state')"

definition load_fastq_file ::
  "alphabet_class \<Rightarrow> 'a::len word \<Rightarrow> 'a word CStringFeatures \<Rightarrow> mapped_file \<Rightarrow> bool \<Rightarrow> bool
     \<Rightarrow> ('a word, bool) outcome" where
  "load_fastq_file C uninit st0 f ignore_invalid bitremap_in_single_string =
     (let st1 = remove_all_subsets st0;
          num = get_num_lines f
      in if num mod 4 \<noteq> 0 then (Inl ShogunException, st1)
         else
           let num = num div 4
           in case cleanup st1 of
                (Inl e, st2) \<Rightarrow> (Inl e, st2)
              | (Inr _, st2) \<Rightarrow>
                  let st3 = st2\<lparr>alphabet := new_CAlphabet (DNA C)\<rparr>;
                      (st4, strings) =
                        (if bitremap_in_single_string then
                           let (_, len1, offs1) = get_line f 0;
                               (_, len, offs2) = get_line f offs1
                           in (st3\<lparr>order := int len,
                                    original_num_symbols := get_num_symbols_a C (alphabet st3)\<rparr>,
                               [SGVector_alloc uninit num])
                         else (st3, replicate (nat num) SGVector_empty))
                  in case fastq_loop C st4 f ignore_invalid bitremap_in_single_string
                            [0..<nat num] (0, strings) of
                       Inl e \<Rightarrow> (Inl e, st4)
                     | Inr (_, strings') \<Rightarrow> (Inr True, st4\<lparr>features := strings'\<rparr>))"


definition packed_read ::
  "alphabet_class \<Rightarrow> 'a::len word CStringFeatures \<Rightarrow> uint8 list \<Rightarrow> 'a word" where
  "packed_read C st s =
     embed_word C st (map (\<lambda>c. ucast (remap_to_bin C (alphabet st) c)) s) (length s)"

text \<open>
  What the round trip asks of the parameters: an \<^verbatim>\<open>int32_t\<close> is four bytes and is read
  back as written, an array of \<^verbatim>\<open>ST\<close> is \<^verbatim>\<open>sizeof(ST)\<close> bytes per cell and is read
  back as written, and the compressor restores what it compressed, into a buffer of the
  right size, and reports that size.
\<close>

definition codec_env_ok :: "'a codec_env \<Rightarrow> bool" where
  "codec_env_ok E \<longleftrightarrow>
     (\<forall>w. length (int32_bytes E w) = 4 \<and> bytes_int32 E (int32_bytes E w) = w) \<and>
     (\<forall>xs. length (ST_bytes E xs) = length xs * sizeof_ST E \<and> bytes_ST E (ST_bytes E xs) = xs) \<and>
     (\<forall>c xs level dst. length dst = length xs \<longrightarrow>
         decompress E c (compress E c xs level) dst (of_nat (length xs))
           = (xs, of_nat (length xs)))"

text \<open>
  The bytes of one frame of the file format (spec section 4.6): the compressed length,
  the declared uncompressed length, the payload.  \<open>frame_size_ok\<close> and \<open>frame_vector\<close>
  are the size check and the vector of the eager branch of \<open>load_frame\<close> for such a
  frame, and \<open>saved_frame\<close> is the frame \<open>save_frame\<close> writes for a stored vector.
\<close>

definition frame_bytes :: "'a codec_env \<Rightarrow> 32 word \<times> uint8 list \<Rightarrow> uint8 list" where
  "frame_bytes E fr =
     int32_bytes E (of_nat (length (snd fr))) @ int32_bytes E (fst fr) @ snd fr"

definition frame_size_ok :: "'a codec_env \<Rightarrow> 'a \<Rightarrow> uint8 \<Rightarrow> 32 word \<times> uint8 list \<Rightarrow> bool" where
  "frame_size_ok E uninit c fr =
     (snd (decompress E c (snd fr)
             (ST_bytes E (vector (SGVector_alloc uninit (sint (fst fr)))))
             (scast (fst fr) * of_nat (sizeof_ST E)))
        = scast (fst fr) * of_nat (sizeof_ST E))"

definition frame_vector :: "'a codec_env \<Rightarrow> 'a \<Rightarrow> uint8 \<Rightarrow> 32 word \<times> uint8 list \<Rightarrow> 'a SGVector" where
  "frame_vector E uninit c fr =
     (SGVector_alloc uninit (sint (fst fr)))
       \<lparr>vector := bytes_ST E (fst (decompress E c (snd fr)
             (ST_bytes E (vector (SGVector_alloc uninit (sint (fst fr)))))
             (scast (fst fr) * of_nat (sizeof_ST E))))\<rparr>"

definition saved_frame :: "'a codec_env \<Rightarrow> uint8 \<Rightarrow> int \<Rightarrow> 'a SGVector \<Rightarrow> 32 word \<times> uint8 list" where
  "saved_frame E c level v = (of_int (vlen v), compress E c (ST_bytes E (elements v)) level)"

section \<open>FormatLoader: \<^verbatim>\<open>load_ascii_file\<close>\<close>

text \<open>
  \<^verbatim>\<open>load_ascii_file(fname, remap_to_bin, ascii_alphabet, binary_alphabet)\<close>, lines 376-517.
  The file is the list of its bytes; \<^verbatim>\<open>fread\<close> of \<open>blocksize\<close> bytes at position \<open>pos\<close> returns
  \<open>take blocksize (drop pos bytes)\<close>.  The first pass (lines 410-424) counts the records
  and the longest distance between two record ends; its loop runs while the last read
  filled the block, so with a block size of \<open>0\<close> it never ends, which is the value \<open>None\<close>.
\<close>

record count_state =
  block_offs :: nat
  old_block_offs :: nat
  cs_num_vectors :: int
  required_blocksize :: nat

definition count_step :: "uint8 list \<Rightarrow> nat \<Rightarrow> nat \<Rightarrow> count_state \<Rightarrow> count_state" where
  "count_step dummy blocksize i s =
     (let sz = length dummy;
          s1 = s\<lparr>block_offs := block_offs s + 1\<rparr>
      in if dummy ! i = 10 \<or> (i = sz - 1 \<and> sz < blocksize)
         then s1\<lparr>cs_num_vectors := cs_num_vectors s1 + 1,
                 required_blocksize := max (required_blocksize s1)
                                           (block_offs s1 - old_block_offs s1),
                 old_block_offs := block_offs s1\<rparr>
         else s1)"

function count_lines :: "uint8 list \<Rightarrow> nat \<Rightarrow> nat \<Rightarrow> count_state \<Rightarrow> count_state option" where
  "count_lines bytes blocksize pos s =
     (if blocksize = 0 then None
      else if length (take blocksize (drop pos bytes)) = blocksize
           then count_lines bytes blocksize (pos + blocksize)
                  (fold (count_step (take blocksize (drop pos bytes)) blocksize) [0..<blocksize] s)
           else Some (fold (count_step (take blocksize (drop pos bytes)) blocksize)
                        [0..<length (take blocksize (drop pos bytes))] s))"
  by pat_completeness auto
termination
  by (relation "measure (\<lambda>(bytes, blocksize, pos, s). Suc (length bytes) - pos)") auto

declare count_lines.simps [simp del]

text \<open>
  The second pass (lines 442-489).  A record ends at a newline, or at the last byte of a
  block that \<^verbatim>\<open>fread\<close> did not fill.  The vector of a record is allocated with
  \<open>len = i - old_sz\<close> cells (line 454), then \<open>overflow_len\<close> cells are written from the bytes
  carried over from the previous block and \<open>len\<close> more from the current block (lines 457-460
  and 466-469).  A write past the allocated cells, and a record past the end of
  \<^verbatim>\<open>features\<close>, is undefined in C++: the model stops there with \<open>OutOfBounds\<close>, keeping the
  cells written so far.  Without remapping both histogram updates go to \<^verbatim>\<open>alpha\<close>
  (lines 470-471).
\<close>

record 'a read_state =
  rs_features :: "'a SGVector list"
  rs_lines :: nat
  rs_overflow :: "uint8 list"
  rs_overflow_len :: nat
  rs_alpha :: CAlphabet
  rs_alpha_bin :: CAlphabet

definition checked_write :: "'b list \<times> bool \<Rightarrow> nat \<Rightarrow> 'b \<Rightarrow> 'b list \<times> bool" where
  "checked_write v j x =
     (case v of (xs, ok) \<Rightarrow>
        if ok \<and> j < length xs then (xs[j := x], True) else (xs, False))"

definition ascii_record ::
  "alphabet_class \<Rightarrow> 'a::len word \<Rightarrow> bool \<Rightarrow> uint8 list \<Rightarrow> nat \<Rightarrow> nat \<Rightarrow> 'a word read_state
     \<Rightarrow> error option \<times> 'a word read_state" where
  "ascii_record C uninit remap dummy old_sz i s =
     (let len = i - old_sz
      in if \<not> rs_lines s < length (rs_features s) then (Some OutOfBounds, s)
         else
           let conv = (\<lambda>c. if remap then ucast (remap_to_bin C (rs_alpha s) c) else ucast c);
               v0 = (vector (SGVector_alloc uninit (int len)), True);
               v1 = fold (\<lambda>j v. checked_write v j (conv (rs_overflow s ! j)))
                         [0..<rs_overflow_len s] v0;
               v2 = fold (\<lambda>j v. checked_write v (j + rs_overflow_len s) (conv (dummy ! (old_sz + j))))
                         [0..<len] v1;
               s1 = s\<lparr>rs_features :=
                        (rs_features s)[rs_lines s := \<lparr>vector = fst v2, vlen = int len\<rparr>]\<rparr>
           in if \<not> snd v2 then (Some OutOfBounds, s1)
              else
                let line = take len (drop old_sz dummy);
                    alpha1 = add_string_to_histogram line (rs_alpha s)
                in (None,
                    s1\<lparr>rs_lines := rs_lines s + 1,
                       rs_overflow_len := 0,
                       rs_alpha := (if remap then alpha1
                                    else add_string_to_histogram (fst v2) alpha1),
                       rs_alpha_bin := (if remap then add_string_to_histogram (fst v2) (rs_alpha_bin s)
                                        else rs_alpha_bin s)\<rparr>))"

fun ascii_block ::
  "alphabet_class \<Rightarrow> 'a::len word \<Rightarrow> bool \<Rightarrow> uint8 list \<Rightarrow> nat \<Rightarrow> nat list \<Rightarrow> nat
     \<Rightarrow> 'a word read_state \<Rightarrow> error option \<times> nat \<times> 'a word read_state" where
  "ascii_block C uninit remap dummy blocksize [] old_sz s = (None, old_sz, s)"
| "ascii_block C uninit remap dummy blocksize (i # is) old_sz s =
     (if dummy ! i = 10 \<or> (i = length dummy - 1 \<and> length dummy < blocksize) then
        (case ascii_record C uninit remap dummy old_sz i s of
           (Some e, s') \<Rightarrow> (Some e, old_sz, s')
         | (None, s') \<Rightarrow> ascii_block C uninit remap dummy blocksize is (i + 1) s')
      else ascii_block C uninit remap dummy blocksize is old_sz s)"

definition read_block ::
  "alphabet_class \<Rightarrow> 'a::len word \<Rightarrow> bool \<Rightarrow> uint8 list \<Rightarrow> nat \<Rightarrow> 'a word read_state
     \<Rightarrow> error option \<times> 'a word read_state" where
  "read_block C uninit remap dummy blocksize s =
     (case ascii_block C uninit remap dummy blocksize [0..<length dummy] 0 s of
        (Some e, _, s') \<Rightarrow> (Some e, s')
      | (None, old_sz, s') \<Rightarrow>
          (None, s'\<lparr>rs_overflow := drop old_sz dummy @ drop (length dummy - old_sz) (rs_overflow s'),
                    rs_overflow_len := length dummy - old_sz\<rparr>))"

function read_lines ::
  "alphabet_class \<Rightarrow> 'a::len word \<Rightarrow> bool \<Rightarrow> uint8 list \<Rightarrow> nat \<Rightarrow> nat \<Rightarrow> 'a word read_state
     \<Rightarrow> (error option \<times> 'a word read_state) option" where
  "read_lines C uninit remap bytes blocksize pos s =
     (if blocksize = 0 then None
      else if fst (read_block C uninit remap (take blocksize (drop pos bytes)) blocksize s) \<noteq> None
           then Some (read_block C uninit remap (take blocksize (drop pos bytes)) blocksize s)
      else if length (take blocksize (drop pos bytes)) = blocksize
           then read_lines C uninit remap bytes blocksize (pos + blocksize)
                  (snd (read_block C uninit remap (take blocksize (drop pos bytes)) blocksize s))
           else Some (read_block C uninit remap (take blocksize (drop pos bytes)) blocksize s))"
  by pat_completeness auto
termination
  by (relation "measure (\<lambda>(C, uninit, remap, bytes, blocksize, pos, s). Suc (length bytes) - pos)")
    auto

declare read_lines.simps [simp del]

text \<open>
  The loader itself.  \<open>contents\<close> is \<open>None\<close> when \<^verbatim>\<open>fopen\<close> fails; then only the alphabet is
  replaced.  The result is \<open>None\<close> when one of the two loops does not end.
\<close>

definition load_ascii_file ::
  "alphabet_class \<Rightarrow> 'a::len word \<Rightarrow> 'a word CStringFeatures \<Rightarrow> uint8 list option \<Rightarrow> bool
     \<Rightarrow> EAlphabet \<Rightarrow> EAlphabet \<Rightarrow> ('a word, unit) outcome option" where
  "load_ascii_file C uninit st0 contents remap_to_bin_flag ascii_alphabet binary_alphabet =
     (let st1 = remove_all_subsets st0
      in case cleanup st1 of
           (Inl e, st2) \<Rightarrow> Some (Inl e, st2)
         | (Inr _, st2) \<Rightarrow>
             let alpha = new_CAlphabet ascii_alphabet;
                 alpha_bin = new_CAlphabet binary_alphabet;
                 finish = (\<lambda>st a ab.
                    let st' = st\<lparr>alphabet := (if remap_to_bin_flag then ab else a)\<rparr>
                    in st'\<lparr>num_symbols := get_num_symbols_a C (alphabet st')\<rparr>)
             in case contents of
                  None \<Rightarrow> Some (Inr (), finish st2 alpha alpha_bin)
                | Some bytes \<Rightarrow>
                    let blocksize = min (1024 * 1024) (length bytes)
                    in case count_lines bytes blocksize 0
                              \<lparr>block_offs = 0, old_block_offs = 0, cs_num_vectors = 0,
                               required_blocksize = 0\<rparr> of
                         None \<Rightarrow> None
                       | Some cs \<Rightarrow>
                           let blocksize = required_blocksize cs
                           in case read_lines C uninit remap_to_bin_flag bytes blocksize 0
                                     \<lparr>rs_features = replicate (nat (cs_num_vectors cs)) SGVector_empty,
                                      rs_lines = 0,
                                      rs_overflow = replicate blocksize 0,
                                      rs_overflow_len = 0,
                                      rs_alpha = alpha, rs_alpha_bin = alpha_bin\<rparr> of
                                None \<Rightarrow> None
                              | Some (Some e, rs) \<Rightarrow> Some (Inl e, st2\<lparr>features := rs_features rs\<rparr>)
                              | Some (None, rs) \<Rightarrow>
                                  Some (Inr (), finish (st2\<lparr>features := rs_features rs\<rparr>)
                                                  (rs_alpha rs) (rs_alpha_bin rs)))"

section \<open>FormatLoader: \<^verbatim>\<open>load_from_directory\<close>\<close>

text \<open>
  \<^verbatim>\<open>load_from_directory(dirname)\<close>, lines 706-772.  The file system registry is not part of
  the sources and is a parameter.  \<^verbatim>\<open>is_directory\<close>, \<^verbatim>\<open>get_children\<close>,
  \<^verbatim>\<open>new_random_access_file\<close> and \<^verbatim>\<open>read\<close> return an error condition, which converts to
  true when it carries an error and is \<open>0\<close> otherwise: line 715 throws the result of
  \<^verbatim>\<open>get_children\<close> when it converts to true, and line 712 reports that the path is not a
  directory when \<^verbatim>\<open>is_directory\<close> converts to true.  \<open>file_read f position n\<close> is
  \<^verbatim>\<open>file->read(position, n, &result, scratch)\<close> on the file opened at \<open>f\<close>.
\<close>

type_synonym error_condition = int

record file_system =
  is_directory :: "string \<Rightarrow> error_condition"
  get_children :: "string \<Rightarrow> error_condition \<times> string list"
  get_file_size :: "string \<Rightarrow> int"
  new_random_access_file :: "string \<Rightarrow> error_condition"
  file_read :: "string \<Rightarrow> int \<Rightarrow> int \<Rightarrow> error_condition \<times> uint8 list"
  join_path :: "string \<Rightarrow> string \<Rightarrow> string"

text \<open>
  The loop over the children (lines 733-763).  A child for which \<^verbatim>\<open>is_directory\<close> reports
  no error is a directory and is skipped, and so is a child that cannot be opened.  A
  failing read calls \<^verbatim>\<open>error\<close>, which throws.  The new vector has
  \<open>filesize / sizeof(ST)\<close> cells; line 757 then copies \<open>filesize\<close> bytes with the buffer of
  \<open>result\<close> as the destination and the new vector as the source (\<^verbatim>\<open>sg_memcpy\<close> takes the
  destination first, as in lines 169, 1308 and 1514), so the vector keeps the cells it was
  allocated with, \<open>uninit\<close>, and the bytes read do not reach it.  A negative file size is
  outside the model, which stops there with \<open>OutOfBounds\<close>.  \<open>num\<close> is the number of
  vectors collected, and \<open>st_size\<close> is \<^verbatim>\<open>sizeof(ST)\<close>.
\<close>

fun read_children ::
  "file_system \<Rightarrow> 'a \<Rightarrow> nat \<Rightarrow> string \<Rightarrow> string list \<Rightarrow> 'a SGVector list
     \<Rightarrow> error + 'a SGVector list" where
  "read_children FS uninit st_size dirname [] strings = Inr strings"
| "read_children FS uninit st_size dirname (v # vs) strings =
     (let fname = join_path FS dirname v
      in if is_directory FS fname \<noteq> 0 then
           let filesize = get_file_size FS fname
           in if \<not> (new_random_access_file FS fname \<noteq> 0) then
                if filesize < 0 then Inl OutOfBounds
                else if fst (file_read FS fname 0 filesize) \<noteq> 0 then Inl ShogunException
                else
                  let sg_string_len = cdiv filesize (int st_size)
                  in read_children FS uninit st_size dirname vs
                       (strings @ [SGVector_alloc uninit sg_string_len])
              else read_children FS uninit st_size dirname vs strings
         else read_children FS uninit st_size dirname vs strings)"

text \<open>
  \<^verbatim>\<open>require\<close> and \<^verbatim>\<open>error\<close> throw; the subsets are removed before anything else (line 708).
\<close>

definition load_from_directory ::
  "alphabet_class \<Rightarrow> file_system \<Rightarrow> 'a::len word \<Rightarrow> nat \<Rightarrow> 'a word CStringFeatures \<Rightarrow> string
     \<Rightarrow> ('a word, bool) outcome" where
  "load_from_directory C FS uninit st_size st0 dirname =
     (let st = remove_all_subsets st0
      in if is_directory FS dirname \<noteq> 0 then (Inl ShogunException, st)
         else case get_children FS dirname of
           (r, children) \<Rightarrow>
             if r \<noteq> 0 then (Inl SystemError, st)
             else if length children \<le> 0 then (Inl ShogunException, st)
             else case read_children FS uninit st_size dirname children [] of
                    Inl e \<Rightarrow> (Inl e, st)
                  | Inr strings \<Rightarrow>
                      if int (length strings) > 0 then set_features C st (Some strings)
                      else (Inr False, st))"




text \<open>Fixtures for the concrete instances: a four-letter alphabet class and a store.\<close>

definition dna_class :: alphabet_class where
  "dna_class = \<lparr>DNA = 0, num_symbols_of = (\<lambda>_. 4), num_bits_of = (\<lambda>_. 2),
     to_bin_of = (\<lambda>_ c. if c = 65 then 0 else if c = 67 then 1 else if c = 71 then 2
                         else if c = 84 then 3 else 255),
     to_char_of = (\<lambda>_ c. if c = 0 then 65 else if c = 1 then 67 else if c = 2 then 71
                          else if c = 3 then 84 else 0),
     valid_of = (\<lambda>_ c. c = 65 \<or> c = 67 \<or> c = 71 \<or> c = 84),
     check_alphabet_size = (\<lambda>a. True),
     check_alphabet = (\<lambda>a. list_all (\<lambda>b. histogram a b = 0 \<or> b = 65 \<or> b = 67 \<or> b = 71 \<or> b = 84)
                                   all_bytes)\<rparr>"

definition empty_store :: "EAlphabet \<Rightarrow> 'a CStringFeatures" where
  "empty_store k = \<lparr>features = [], single_string = None, alphabet = new_CAlphabet k,
     m_subset_stack = [], order = 0, num_symbols = 0, original_num_symbols = 0,
     symbol_mask_table = [], preprocess_on_get = False\<rparr>"

definition store_of :: "EAlphabet \<Rightarrow> 'a list list \<Rightarrow> 'a CStringFeatures" where
  "store_of k xs = (empty_store k)\<lparr>features := map SGVector_of xs\<rparr>"

text \<open>
  A codec environment for byte symbols: little-endian \<^verbatim>\<open>int32_t\<close>, one byte per symbol,
  no preprocessors, and a toy compressor that complements every byte.
\<close>

definition le32 :: "32 word \<Rightarrow> uint8 list" where
  "le32 w = [ucast w, ucast (drop_bit 8 w), ucast (drop_bit 16 w), ucast (drop_bit 24 w)]"

definition of_le32 :: "uint8 list \<Rightarrow> 32 word" where
  "of_le32 bs = foldr (\<lambda>b w. ucast b OR push_bit 8 w) bs 0"

definition byte_env :: "8 word codec_env" where
  "byte_env = \<lparr>sizeof_ST = 1, int32_bytes = le32, bytes_int32 = of_le32,
     ST_bytes = (\<lambda>xs. xs), bytes_ST = (\<lambda>bs. bs), preprocessors = [],
     compress = (\<lambda>c xs level. map (\<lambda>b. NOT b) xs),
     decompress = (\<lambda>c comp dst size.
        (take (length dst) (map (\<lambda>b. NOT b) comp) @ drop (length comp) dst,
         of_nat (length comp)))\<rparr>"

definition dna_store :: "8 word list list \<Rightarrow> 8 word CStringFeatures" where
  "dna_store xs = (store_of 0 xs)\<lparr>alphabet := fold add_string_to_histogram xs (new_CAlphabet 0)\<rparr>"

text \<open>
  A directory \<open>d\<close> with the files \<open>a\<close> (two bytes) and \<open>b\<close> (one byte) and the directory
  \<open>sub\<close>; reading the files listed in \<open>unreadable\<close> fails.
\<close>

definition dir_contents :: "string \<Rightarrow> uint8 list" where
  "dir_contents p = (if p = ''d/a'' then [65, 67] else if p = ''d/b'' then [71] else [])"

definition dir_fs :: "string list \<Rightarrow> file_system" where
  "dir_fs unreadable =
     \<lparr>is_directory = (\<lambda>p. if p = ''d'' \<or> p = ''d/sub'' then 0 else 1),
      get_children = (\<lambda>p. if p = ''d'' then (0, [''a'', ''sub'', ''b'']) else (1, [])),
      get_file_size = (\<lambda>p. int (length (dir_contents p))),
      new_random_access_file = (\<lambda>p. if p = ''d/a'' \<or> p = ''d/b'' then 0 else 1),
      file_read = (\<lambda>p offs n. if p \<in> set unreadable then (1, [])
                               else (0, take (nat n) (drop (nat offs) (dir_contents p)))),
      join_path = (\<lambda>d v. d @ ''/'' @ v)\<rparr>"

section \<open>Properties of the k-mer packing\<close>

lemma all_ones_mask: "(all_ones n :: 'a::len word) = mask n"
proof (induction n)
  case 0
  show ?case by (simp add: all_ones_def)
next
  case (Suc n)
  have "(all_ones (Suc n) :: 'a word) = push_bit 1 (all_ones n) OR 1"
    by (simp add: all_ones_def)
  also have "\<dots> = push_bit 1 (mask n) OR 1"
    by (simp add: Suc)
  also have "\<dots> = mask (Suc n)"
    by (simp add: mask_Suc_double or.commute mult.commute)
  finally show ?case .
qed

lemma embed_word_Suc:
  "embed_word C st seq (Suc n) =
     push_bit (get_num_bits C (alphabet st)) (embed_word C st seq n) OR seq ! n"
  by (simp add: embed_word_def Let_def)

lemma embed_word_0: "embed_word C st seq 0 = 0"
  by (simp add: embed_word_def)

text \<open>Bit \<open>b\<close> of the packed word is bit \<open>b mod nbits\<close> of symbol \<open>n - 1 - b div nbits\<close>.\<close>

lemma bit_embed_word:
  fixes seq :: "'a::len word list"
  assumes nb: "nbits = get_num_bits C (alphabet st)"
    and fits: "\<forall>j<n. take_bit nbits (seq ! j) = seq ! j"
    and pos: "0 < nbits"
  shows "bit (embed_word C st seq n) b \<longleftrightarrow>
         (b < n * nbits \<and> b < LENGTH('a) \<and> bit (seq ! (n - 1 - b div nbits)) (b mod nbits))"
  using fits
proof (induction n arbitrary: b)
  case 0
  then show ?case by (simp add: embed_word_0)
next
  case (Suc n)
  have small: "k < nbits" if "j \<le> n" "bit (seq ! j) k" for j k
  proof -
    from that Suc.prems have "bit (take_bit nbits (seq ! j)) k" by simp
    then show ?thesis by (simp add: bit_take_bit_iff)
  qed
  have IH: "bit (embed_word C st seq n) b' \<longleftrightarrow>
      (b' < n * nbits \<and> b' < LENGTH('a) \<and> bit (seq ! (n - 1 - b' div nbits)) (b' mod nbits))"
    for b'
    using Suc by simp
  show ?case
  proof (cases "b < nbits")
    case True
    then show ?thesis
      using small[of n b]
      by (auto simp: embed_word_Suc nb[symmetric] bit_or_iff bit_push_bit_iff
          dest: bit_imp_le_length)
  next
    case False
    then have b: "nbits \<le> b" by simp
    have d: "(b - nbits) div nbits = b div nbits - 1" "(b - nbits) mod nbits = b mod nbits"
      using b pos by (simp_all add: le_div_geq le_mod_geq)
    have d1: "1 \<le> b div nbits"
      using b pos by (simp add: div_greater_zero_iff Suc_le_eq)
    have lt: "b - nbits < n * nbits \<longleftrightarrow> b < Suc n * nbits"
      using b by auto
    have "\<not> bit (seq ! n) b"
      using small[of n b] False by auto
    then show ?thesis
      using b d1
      by (auto simp: embed_word_Suc nb[symmetric] bit_or_iff bit_push_bit_iff IH d lt
          possible_bit_word dest: bit_imp_le_length)
  qed
qed

text \<open>The state of the unpacking loop after \<open>n\<close> of its \<open>len\<close> rounds.\<close>

lemma unembed_fold:
  assumes "n \<le> len" "len \<le> length seq"
  shows "fold (unembed_step sg nbits r len) [0..<n] (word, seq) = (w', seq') \<Longrightarrow>
         w' = (shift_right sg nbits ^^ n) word \<and> length seq' = length seq \<and>
         (\<forall>i<n. seq' ! (len - i - 1)
                   = r (ucast (take_bit nbits ((shift_right sg nbits ^^ i) word)))) \<and>
         (\<forall>j<length seq. j < len - n \<or> len \<le> j \<longrightarrow> seq' ! j = seq ! j)"
  using assms(1)
proof (induction n arbitrary: w' seq')
  case 0
  then show ?case by simp
next
  case (Suc n)
  obtain w0 s0 where st: "fold (unembed_step sg nbits r len) [0..<n] (word, seq) = (w0, s0)"
    by (cases "fold (unembed_step sg nbits r len) [0..<n] (word, seq)")
  from Suc.IH[OF st] Suc.prems
  have w0: "w0 = (shift_right sg nbits ^^ n) word"
    and l0: "length s0 = length seq"
    and done0: "\<forall>i<n. s0 ! (len - i - 1)
                   = r (ucast (take_bit nbits ((shift_right sg nbits ^^ i) word)))"
    and rest0: "\<forall>j<length seq. j < len - n \<or> len \<le> j \<longrightarrow> s0 ! j = seq ! j"
    by simp_all
  from Suc.prems(1) have "unembed_step sg nbits r len n (w0, s0) = (w', seq')"
    by (simp add: st)
  then have w': "w' = shift_right sg nbits w0"
    and seq': "seq' = s0[len - n - 1 := r (ucast (w0 AND mask nbits))]"
    by (simp_all add: unembed_step_def all_ones_mask)
  have idx: "len - n - 1 < length s0"
    using Suc.prems(2) assms(2) l0 by simp
  have "\<forall>i<Suc n. seq' ! (len - i - 1)
          = r (ucast (take_bit nbits ((shift_right sg nbits ^^ i) word)))"
  proof (intro allI impI)
    fix i assume i: "i < Suc n"
    show "seq' ! (len - i - 1) = r (ucast (take_bit nbits ((shift_right sg nbits ^^ i) word)))"
    proof (cases "i = n")
      case True
      then show ?thesis using idx by (simp add: seq' w0 take_bit_eq_mask)
    next
      case False
      then have "i < n" using i by simp
      moreover have "len - i - 1 \<noteq> len - n - 1"
        using \<open>i < n\<close> Suc.prems(2) by simp
      ultimately show ?thesis using done0 by (simp add: seq')
    qed
  qed
  moreover have "\<forall>j<length seq. j < len - Suc n \<or> len \<le> j \<longrightarrow> seq' ! j = seq ! j"
    using rest0 Suc.prems(2) by (auto simp: seq')
  ultimately show ?case using w0 w' l0 by (simp add: seq')
qed

text \<open>
  After \<open>i\<close> shifts, logical or arithmetic, the bits that have not yet left the word
  are where the logical shift puts them.
\<close>

lemma bit_shift_right_iter:
  fixes w :: "'a::len word"
  shows "k + i * nbits < LENGTH('a) \<Longrightarrow>
         bit ((shift_right sg nbits ^^ i) w) k = bit w (k + i * nbits)"
proof (induction i arbitrary: k)
  case 0
  then show ?case by simp
next
  case (Suc i)
  have k: "k + nbits < LENGTH('a)" "(k + nbits) + i * nbits < LENGTH('a)"
    using Suc.prems by (simp_all add: algebra_simps)
  have "bit ((shift_right sg nbits ^^ Suc i) w) k
          = bit ((shift_right sg nbits ^^ i) w) (nbits + k)"
  proof -
    have "\<not> LENGTH('a) - nbits \<le> k" using k(1) by arith
    then show ?thesis
      by (simp add: shift_right_def bit_signed_drop_bit_iff bit_drop_bit_eq)
  qed
  also have "\<dots> = bit w ((k + nbits) + i * nbits)"
    using Suc.IH[OF k(2)] by (simp add: add.commute)
  finally show ?case by (simp add: algebra_simps)
qed

lemma take_bit_unembed_embed:
  fixes S :: "'a::len word list"
  assumes nb: "nbits = get_num_bits C (alphabet st)"
    and fits: "\<forall>j<len. unat (S ! j) < 2 ^ nbits"
    and width: "len * nbits \<le> LENGTH('a)"
    and i: "i < len"
  shows "take_bit nbits ((shift_right sg nbits ^^ i) (embed_word C st S len))
           = S ! (len - i - 1)"
proof (cases "nbits = 0")
  case True
  have "unat (S ! (len - i - 1)) < 2 ^ nbits" using fits i by simp
  then have "S ! (len - i - 1) = 0" using True by (simp add: unat_eq_0)
  then show ?thesis using True by simp
next
  case False
  then have pos: "0 < nbits" by simp
  have tb: "\<forall>j<len. take_bit nbits (S ! j) = S ! j"
  proof (intro allI impI)
    fix j assume "j < len"
    then have "unat (S ! j) < 2 ^ nbits" using fits by simp
    then have "unat (take_bit nbits (S ! j)) = unat (S ! j)"
      by (simp add: unsigned_take_bit_eq take_bit_nat_eq_self)
    then show "take_bit nbits (S ! j) = S ! j"
      by (simp add: word_unat_eq_iff)
  qed
  show ?thesis
  proof (rule bit_word_eqI)
    fix k assume kl: "k < LENGTH('a)"
    show "bit (take_bit nbits ((shift_right sg nbits ^^ i) (embed_word C st S len))) k
          = bit (S ! (len - i - 1)) k"
    proof (cases "k < nbits")
      case True
      have "k + i * nbits < Suc i * nbits" using True by simp
      also have "\<dots> \<le> len * nbits"
        using i by (simp add: Suc_leI mult_le_mono1 del: mult_Suc)
      finally have b: "k + i * nbits < len * nbits" .
      then have bl: "k + i * nbits < LENGTH('a)" using width by simp
      have dm: "(k + i * nbits) div nbits = i" "(k + i * nbits) mod nbits = k"
        using True by simp_all
      show ?thesis
        using True b bl
        by (simp add: bit_take_bit_iff bit_shift_right_iter[OF bl]
            bit_embed_word[OF nb tb pos] dm)
    next
      case False
      have "\<not> bit (take_bit nbits (S ! (len - i - 1))) k"
        using False by (simp add: bit_take_bit_iff)
      then have "\<not> bit (S ! (len - i - 1)) k" using tb i by simp
      then show ?thesis using False by (simp add: bit_take_bit_iff)
    qed
  qed
qed

text \<open>
  Claim C2.  Let \<open>S\<close> hold \<open>len\<close> binary symbol codes, each below \<open>2 ^ bits_per_symbol\<close>,
  with \<open>len * bits_per_symbol\<close> at most the bit width of the code type.  Then
  \<^verbatim>\<open>unembed_word(embed_word(S, len), out, len)\<close> leaves \<open>out[i] = remap_to_char(S[i])\<close>
  for every \<open>0 \<le> i < len\<close> (the byte cast of \<open>S[i]\<close> is the argument of
  \<^verbatim>\<open>remap_to_char\<close>): the loop produces the last symbol first and writes it at
  \<open>out[len - i - 1]\<close>, so the original order is recovered.  This holds for the signed
  and the unsigned instantiations alike.
\<close>

theorem unembed_embed_round_trip:
  fixes S :: "'a::len word list"
  assumes "length S = len"
    and "\<forall>j<len. unat (S ! j) < 2 ^ get_num_bits C (alphabet st)"
    and "len * get_num_bits C (alphabet st) \<le> LENGTH('a)"
    and "len \<le> length out"
  shows "\<forall>i<len. unembed_word C is_signed st (embed_word C st S len) out len ! i
                  = remap_to_char C (alphabet st) (ucast (S ! i))"
proof (intro allI impI)
  fix i assume i: "i < len"
  define nbits where "nbits = get_num_bits C (alphabet st)"
  define r where "r = remap_to_char C (alphabet st)"
  obtain w' seq' where fd:
    "fold (unembed_step is_signed nbits r len) [0..<len] (embed_word C st S len, out) = (w', seq')"
    by (cases "fold (unembed_step is_signed nbits r len) [0..<len] (embed_word C st S len, out)")
  from unembed_fold[OF le_refl assms(4) fd]
  have "\<forall>i<len. seq' ! (len - i - 1) =
          r (ucast (take_bit nbits ((shift_right is_signed nbits ^^ i) (embed_word C st S len))))"
    by simp
  moreover have less: "len - i - 1 < len" using i by simp
  ultimately have "seq' ! (len - (len - i - 1) - 1) =
      r (ucast (take_bit nbits
                  ((shift_right is_signed nbits ^^ (len - i - 1)) (embed_word C st S len))))"
    by blast
  moreover have "len - (len - i - 1) - 1 = i" using i by simp
  moreover have "take_bit nbits
      ((shift_right is_signed nbits ^^ (len - i - 1)) (embed_word C st S len)) = S ! i"
    using take_bit_unembed_embed[OF nbits_def _ _ less, of S is_signed] assms(2,3) i
    by (simp add: nbits_def)
  ultimately show "unembed_word C is_signed st (embed_word C st S len) out len ! i
                  = remap_to_char C (alphabet st) (ucast (S ! i))"
    using fd by (simp add: unembed_word_def Let_def nbits_def r_def)
qed

theorem unembed_embed_round_trip_witness:
  "map (\<lambda>i. unembed_word dna_class True (empty_store 0)
               (embed_word dna_class (empty_store 0) [1, 2, 3, 0 :: 8 word] 4) [0, 0, 0, 0] 4 ! i)
       [0, 1, 2, 3] = [67, 71, 84, 65]"
proof -
  let ?S = "[1, 2, 3, 0 :: 8 word]"
  let ?st = "empty_store 0 :: 8 word CStringFeatures"
  have nb: "get_num_bits dna_class (alphabet ?st) = 2"
    by (simp add: get_num_bits_def dna_class_def)
  have h2: "\<forall>j<4. unat (?S ! j) < 2 ^ get_num_bits dna_class (alphabet ?st)"
  proof (intro allI impI)
    fix j :: nat assume "j < 4"
    then consider "j = 0" | "j = 1" | "j = 2" | "j = 3" by linarith
    then show "unat (?S ! j) < 2 ^ get_num_bits dna_class (alphabet ?st)"
      by cases (simp_all add: nb)
  qed
  have h3: "4 * get_num_bits dna_class (alphabet ?st) \<le> LENGTH(8)"
    by (simp add: nb)
  have "\<forall>i<4. unembed_word dna_class True ?st (embed_word dna_class ?st ?S 4) [0, 0, 0, 0] 4 ! i
                = remap_to_char dna_class (alphabet ?st) (ucast (?S ! i))"
    by (rule unembed_embed_round_trip[OF _ h2 h3]) simp_all
  then show ?thesis
    by (simp add: remap_to_char_def dna_class_def)
qed

section \<open>Properties of \<^verbatim>\<open>cleanup\<close> and \<^verbatim>\<open>set_features\<close>\<close>

lemma fold_cleanup_features_only:
  "\<exists>F. fold (\<lambda>i s. s\<lparr>features := (features s)[subset_idx_conversion s i := SGVector_empty]\<rparr>)
         xs st = st\<lparr>features := F\<rparr>"
proof (induction xs arbitrary: st)
  case Nil
  have "st = st\<lparr>features := features st\<rparr>" by simp
  then show ?case by (metis fold_simps(1))
next
  case (Cons x xs)
  let ?st1 = "st\<lparr>features := (features st)[subset_idx_conversion st x := SGVector_empty]\<rparr>"
  from Cons[of ?st1] obtain F where
    "fold (\<lambda>i s. s\<lparr>features := (features s)[subset_idx_conversion s i := SGVector_empty]\<rparr>)
       xs ?st1 = ?st1\<lparr>features := F\<rparr>" by blast
  then show ?case by (intro exI[of _ F]) simp
qed

lemma cleanup_feature_vectors_no_subsets:
  assumes "\<not> has_subsets st"
  shows "\<exists>F. cleanup_feature_vectors st 0 (get_num_vectors st - 1) = (Inr (), st\<lparr>features := F\<rparr>)"
proof (cases "get_num_vectors st = 0")
  case True
  have "st = st\<lparr>features := features st\<rparr>" by simp
  then show ?thesis using True unfolding cleanup_feature_vectors_def
    by (metis (full_types))
next
  case False
  obtain F where
    "fold (\<lambda>i s. s\<lparr>features := (features s)[subset_idx_conversion s i := SGVector_empty]\<rparr>)
       [nat 0..<nat (get_num_vectors st - 1 + 1)] st = st\<lparr>features := F\<rparr>"
    using fold_cleanup_features_only by blast
  moreover have "0 \<le> get_num_vectors st"
    using assms by (simp add: get_num_vectors_def)
  ultimately show ?thesis using False
    by (intro exI[of _ F]) (simp add: cleanup_feature_vectors_def)
qed

text \<open>
  \<^verbatim>\<open>cleanup\<close> never fails: it drops the subsets, the sequences, \<open>single_string\<close> and the
  mask table, and installs a fresh alphabet of the same kind.
\<close>

lemma cleanup_eq:
  "cleanup st = (Inr (), st\<lparr>m_subset_stack := [], single_string := None, features := [],
                            symbol_mask_table := [],
                            alphabet := new_CAlphabet (alphabet_kind (alphabet st))\<rparr>)"
proof (cases "single_string st")
  case None
  let ?st1 = "remove_all_subsets st"
  have ns: "\<not> has_subsets ?st1"
    by (simp add: has_subsets_def remove_all_subsets_def)
  from cleanup_feature_vectors_no_subsets[OF ns] obtain F where
    F: "cleanup_feature_vectors ?st1 0 (get_num_vectors ?st1 - 1) = (Inr (), ?st1\<lparr>features := F\<rparr>)"
    by blast
  have "single_string ?st1 = None"
    using None by (simp add: remove_all_subsets_def)
  then show ?thesis using None
    by (simp add: cleanup_def Let_def F get_alphabet_def) (simp add: remove_all_subsets_def)
next
  case (Some s)
  then show ?thesis
    by (simp add: cleanup_def Let_def get_alphabet_def remove_all_subsets_def)
qed

lemma histogram_add_string:
  "histogram (add_string_to_histogram xs a) b
     = histogram a b + length (filter (\<lambda>x. ucast x = b) xs)"
  unfolding add_string_to_histogram_def
  by (induction xs arbitrary: a) (auto simp: add_byte_to_histogram_def)

lemma alphabet_kind_add_string [simp]:
  "alphabet_kind (add_string_to_histogram xs a) = alphabet_kind a"
  unfolding add_string_to_histogram_def
  by (induction xs arbitrary: a) (auto simp: add_byte_to_histogram_def)

lemma histogram_fold_add_string:
  "histogram (fold (\<lambda>v. add_string_to_histogram (elements v)) ps a) b
     = histogram a b + length (filter (\<lambda>x. ucast x = b) (concat (map elements ps)))"
  by (induction ps arbitrary: a) (simp_all add: histogram_add_string)

lemma alphabet_kind_fold_add_string [simp]:
  "alphabet_kind (fold (\<lambda>v. add_string_to_histogram (elements v)) ps a) = alphabet_kind a"
  by (induction ps arbitrary: a) simp_all

text \<open>
  Claim C7.  For every input sequence list \<open>ps\<close>, \<^verbatim>\<open>set_features\<close> on a store without
  an active subset either succeeds, and then the stored sequences are exactly \<open>ps\<close> and
  the alphabet is a fresh instance of the same kind whose histogram counts the bytes of
  \<open>ps\<close>, or, when the histogram validation fails, returns false and leaves the store,
  sequences and alphabet included, exactly as it was.  The two remaining paths leave the
  store as it was, too: the null pointer returns false, and a store with an active
  subset rejects the call with an exception.
\<close>

theorem set_features_all_or_nothing:
  fixes st :: "'a::len word CStringFeatures"
  defines "alpha ps \<equiv> fold (\<lambda>v. add_string_to_histogram (elements v)) ps
                        (new_CAlphabet (get_alphabet (alphabet st)))"
  shows "(\<not> has_subsets st \<and> check_alphabet_size C (alpha ps) \<and> check_alphabet C (alpha ps) \<longrightarrow>
            set_features C st (Some ps)
              = (Inr True, st\<lparr>single_string := None, symbol_mask_table := [],
                               alphabet := alpha ps, features := ps\<rparr>) \<and>
            alphabet_kind (alpha ps) = alphabet_kind (alphabet st) \<and>
            (\<forall>b. histogram (alpha ps) b
                   = length (filter (\<lambda>x. ucast x = b) (concat (map elements ps))))) \<and>
         (\<not> has_subsets st \<and> \<not> (check_alphabet_size C (alpha ps) \<and> check_alphabet C (alpha ps)) \<longrightarrow>
            set_features C st (Some ps) = (Inr False, st)) \<and>
         (\<not> has_subsets st \<longrightarrow> set_features C st None = (Inr False, st)) \<and>
         (has_subsets st \<longrightarrow> set_features C st p = (Inl ShogunException, st))"
proof (intro conjI impI allI)
  assume a: "\<not> has_subsets st \<and> check_alphabet_size C (alpha ps) \<and> check_alphabet C (alpha ps)"
  then have "m_subset_stack st = []" by (simp add: has_subsets_def)
  then have "st\<lparr>m_subset_stack := []\<rparr> = st" by simp
  then show "set_features C st (Some ps)
              = (Inr True, st\<lparr>single_string := None, symbol_mask_table := [],
                               alphabet := alpha ps, features := ps\<rparr>)"
    using a unfolding set_features_def alpha_def[symmetric]
    by (simp add: cleanup_eq)
next
  show "alphabet_kind (alpha ps) = alphabet_kind (alphabet st)"
    by (simp add: alpha_def new_CAlphabet_def get_alphabet_def)
next
  fix b
  show "histogram (alpha ps) b = length (filter (\<lambda>x. ucast x = b) (concat (map elements ps)))"
    by (simp add: alpha_def histogram_fold_add_string new_CAlphabet_def)
next
  assume "\<not> has_subsets st \<and> \<not> (check_alphabet_size C (alpha ps) \<and> check_alphabet C (alpha ps))"
  then show "set_features C st (Some ps) = (Inr False, st)"
    unfolding set_features_def alpha_def[symmetric] by auto
next
  assume "\<not> has_subsets st"
  then show "set_features C st None = (Inr False, st)"
    by (simp add: set_features_def)
next
  assume "has_subsets st"
  then show "set_features C st p = (Inl ShogunException, st)"
    by (simp add: set_features_def)
qed

theorem set_features_all_or_nothing_witness:
  "set_features dna_class (store_of 0 [[65]])
       (Some [SGVector_of [67, 71], SGVector_of [84 :: 8 word]])
     = (Inr True,
        (store_of 0 [[65]])\<lparr>single_string := None, symbol_mask_table := [],
           alphabet := fold (\<lambda>v. add_string_to_histogram (elements v))
                         [SGVector_of [67, 71], SGVector_of [84 :: 8 word]] (new_CAlphabet 0),
           features := [SGVector_of [67, 71], SGVector_of [84]]\<rparr>) \<and>
   set_features dna_class (store_of 0 [[65]]) (Some [SGVector_of [78 :: 8 word]])
     = (Inr False, store_of 0 [[65]])"
proof -
  let ?st = "store_of 0 [[65 :: 8 word]]"
  let ?good = "[SGVector_of [67, 71], SGVector_of [84 :: 8 word]]"
  let ?bad = "[SGVector_of [78 :: 8 word]]"
  have ns: "\<not> has_subsets ?st"
    by (simp add: has_subsets_def store_of_def empty_store_def)
  have k: "get_alphabet (alphabet ?st) = 0"
    by (simp add: get_alphabet_def store_of_def empty_store_def new_CAlphabet_def)
  have ok: "check_alphabet_size dna_class
              (fold (\<lambda>v. add_string_to_histogram (elements v)) ?good (new_CAlphabet 0)) \<and>
            check_alphabet dna_class
              (fold (\<lambda>v. add_string_to_histogram (elements v)) ?good (new_CAlphabet 0))"
    by code_simp
  have no: "\<not> check_alphabet dna_class
              (fold (\<lambda>v. add_string_to_histogram (elements v)) ?bad (new_CAlphabet 0))"
    by code_simp
  show ?thesis
    using set_features_all_or_nothing[of ?st dna_class ?good]
      set_features_all_or_nothing[of ?st dna_class ?bad] ns ok no
    by (simp add: k)
qed

section \<open>Properties of the window extraction\<close>

text \<open>
  Claim C4.  The claim asks for exactly \<open>floor((L - W) / Stp) + 1\<close> windows of length
  \<open>W\<close>.  On the store holding the one sequence \<open>ACGT\<close> (\<open>L = 4\<close>), with \<open>W = 2\<close>,
  \<open>Stp = 1\<close> and \<open>skip = 0\<close>, the call returns \<open>3\<close> and keeps the original as
  \<open>single_string\<close>, but the store holds one window only, \<open>AC\<close>: the loop that builds the
  windows runs to \<^verbatim>\<open>get_num_vectors()\<close>, which is \<open>1\<close>, and not to the local
  \<^verbatim>\<open>num_vectors\<close> that holds the window count.
\<close>

theorem sliding_window_keeps_one_window:
  "(let st = store_of 0 [[65, 67, 71, 84 :: 8 word]];
        (r, st') = obtain_by_sliding_window st 2 1 0
    in (r, map elements (features st'), map_option elements (single_string st')))
   = (Inr 3, [[65, 67]], Some [65, 67, 71, 84])"
  by code_simp

text \<open>
  Claim C8.  The claim asks that a position out of range leaves the store as it was
  before the call, with no window slices kept.  Take the store holding \<open>ACGT\<close>.  A first
  extraction at the positions \<open>0, 1\<close> with window \<open>2\<close> succeeds: the store holds the
  windows \<open>AC\<close> and \<open>CG\<close> and \<open>single_string\<close> is \<open>ACGT\<close>.  A second extraction at
  \<open>0, 5\<close> throws at the position \<open>5\<close>, and the store it leaves is not the one it found:
  both vectors are still there, the first now with the declared length \<open>4\<close>, and
  \<open>single_string\<close> is gone.  The source assigns \<^verbatim>\<open>num_vectors=1\<close> on this path, to a
  local variable, so the vectors past the first stay.
\<close>

theorem position_list_failure_after_windowing:
  "(let st0 = store_of 0 [[65, 67, 71, 84 :: 8 word]];
        (r1, st1) = obtain_by_position_list st0 2 (Some [0, 1]) 0;
        (r2, st2) = obtain_by_position_list st1 2 (Some [0, 5]) 0
    in (r1, map elements (features st1), map_option elements (single_string st1),
        r2, map vlen (features st2), map vector (features st2), single_string st2))
   = (Inr 2, [[65, 67], [67, 71]], Some [65, 67, 71, 84],
      Inl ShogunException, [4, 2], [[65, 67, 71, 84], [67, 71, 84]], None)"
  by code_simp

section \<open>Properties of the compressed codec\<close>

lemma fread_bytes_append: "fread_bytes (length xs) (xs @ rest) = Some (xs, rest)"
  by (simp add: fread_bytes_def)

lemma fread_int32_enc:
  assumes "codec_env_ok E"
  shows "fread_int32 E (int32_bytes E w @ rest) = Some (w, rest)"
proof -
  have "length (int32_bytes E w) = 4" "bytes_int32 E (int32_bytes E w) = w"
    using assms by (simp_all add: codec_env_ok_def)
  then show ?thesis
    using fread_bytes_append[of "int32_bytes E w" rest] by (simp add: fread_int32_def)
qed

lemma sint_of_int_32:
  "- (2 ^ 31) \<le> x \<Longrightarrow> x < 2 ^ 31 \<Longrightarrow> sint (of_int x :: 32 word) = x"
  by (simp add: sint_sbintrunc' signed_take_bit_int_eq_self)

lemma sint_of_nat_32: "n < 2 ^ 31 \<Longrightarrow> sint (of_nat n :: 32 word) = int n"
  using sint_of_int_32[of "int n"] by simp

lemma load_frame_eager:
  assumes ok: "codec_env_ok E" and len: "length (snd fr) < 2 ^ 31"
  shows "load_frame E uninit True c (frame_bytes E fr @ rest)
           = (if frame_size_ok E uninit c fr then None else Some AssertionFailed,
              Some (frame_vector E uninit c fr), rest)"
proof -
  obtain lu payload where fr: "fr = (lu, payload)" by (cases fr)
  have s: "sint (of_nat (length payload) :: 32 word) = int (length payload)"
    using len fr by (simp add: sint_of_nat_32)
  show ?thesis
    unfolding load_frame_def frame_bytes_def fr
    by (simp add: fread_int32_enc[OF ok] s fread_bytes_append frame_size_ok_def frame_vector_def
        Let_def split: prod.splits)
qed

lemma load_frames_all_ok:
  assumes ok: "codec_env_ok E"
  shows "\<forall>fr\<in>set frs. length (snd fr) < 2 ^ 31 \<and> frame_size_ok E uninit c fr \<Longrightarrow>
         load_frames E uninit True c (length frs) (concat (map (frame_bytes E) frs) @ rest) fs
           = (None, fs @ map (frame_vector E uninit c) frs)"
proof (induction frs arbitrary: fs)
  case Nil
  then show ?case by simp
next
  case (Cons fr frs)
  then show ?case
    by (simp add: load_frame_eager[OF ok])
qed

lemma load_frames_some_bad:
  assumes ok: "codec_env_ok E"
  shows "\<forall>fr\<in>set frs. length (snd fr) < 2 ^ 31 \<Longrightarrow>
         \<exists>fr\<in>set frs. \<not> frame_size_ok E uninit c fr \<Longrightarrow>
         fst (load_frames E uninit True c (length frs) (concat (map (frame_bytes E) frs) @ rest) fs)
           = Some AssertionFailed"
proof (induction frs arbitrary: fs)
  case Nil
  then show ?case by simp
next
  case (Cons fr frs)
  show ?case
  proof (cases "frame_size_ok E uninit c fr")
    case True
    then have "\<exists>fr\<in>set frs. \<not> frame_size_ok E uninit c fr" using Cons.prems(2) by auto
    then show ?thesis using Cons.IH Cons.prems(1) True
      by (simp add: load_frame_eager[OF ok])
  next
    case False
    then show ?thesis using Cons.prems(1)
      by (simp add: load_frame_eager[OF ok])
  qed
qed

lemma read_id_ok: "read_id xs (xs @ rest) = Inr rest"
  by (induction xs) (simp_all add: fread_bytes_def)

lemma read_byte_cons: "read_byte (b # rest) = Inr (b, rest)"
  by (simp add: read_byte_def fread_bytes_def)

lemma read_positive_enc:
  "codec_env_ok E \<Longrightarrow> 0 < sint w \<Longrightarrow> read_positive E (int32_bytes E w @ rest) = Inr (w, rest)"
  by (simp add: read_positive_def fread_int32_enc)

text \<open>Loading a file made of a header and a list of frames.\<close>

lemma load_compressed_layout:
  assumes ok: "codec_env_ok E"
    and n: "frs \<noteq> []" "length frs < 2 ^ 31"
    and m: "0 < m" "m < 2 ^ 31"
  shows "load_compressed E uninit st
           (Some (file_header E c a (int (length frs)) m @ concat (map (frame_bytes E) frs))) True
         = (case load_frames E uninit True c (length frs) (concat (map (frame_bytes E) frs)) [] of
              (Some e, fs) \<Rightarrow> (Inl e, (snd (cleanup (remove_all_subsets st)))\<lparr>alphabet := new_CAlphabet a, features := fs\<rparr>)
            | (None, fs) \<Rightarrow> (Inr False, (snd (cleanup (remove_all_subsets st)))\<lparr>alphabet := new_CAlphabet a, features := fs\<rparr>))"
proof -
  let ?body = "concat (map (frame_bytes E) frs)"
  define st2 where "st2 = snd (cleanup (remove_all_subsets st))"
  have sn: "sint (of_nat (length frs) :: 32 word) = int (length frs)"
    using n(2) by (rule sint_of_nat_32)
  have sm: "sint (of_int m :: 32 word) = m"
    using m sint_of_int_32[of m] by simp
  have r1: "read_positive E (int32_bytes E (of_nat (length frs)) @ int32_bytes E (of_int m) @ ?body)
              = Inr (of_nat (length frs), int32_bytes E (of_int m) @ ?body)"
    using n(1) by (intro read_positive_enc[OF ok]) (simp add: sn)
  have r2: "read_positive E (int32_bytes E (of_int m) @ ?body) = Inr (of_int m, ?body)"
    using m(1) by (intro read_positive_enc[OF ok]) (simp add: sm)
  have body: "load_body E uninit True c st3
                (int32_bytes E (of_nat (length frs)) @ int32_bytes E (of_int m) @ ?body)
              = (case load_frames E uninit True c (length frs) ?body [] of
                   (Some e, fs) \<Rightarrow> (Inl e, st3\<lparr>features := fs\<rparr>)
                 | (None, fs) \<Rightarrow> (Inr False, st3\<lparr>features := fs\<rparr>))" for st3
    unfolding load_body_def r1 by (simp add: r2 sn)
  have cl: "cleanup (remove_all_subsets st) = (Inr (), st2)"
    by (simp add: st2_def cleanup_eq)
  have layout: "file_header E c a (int (length frs)) m @ ?body
      = [83, 71, 86, 48] @ (c # a # int32_bytes E (of_nat (length frs)) @ int32_bytes E (of_int m) @ ?body)"
    by (simp add: file_header_def)
  show ?thesis
    unfolding load_compressed_def Let_def layout read_id_ok
    by (simp only: read_id_ok cl snd_conv read_byte_cons body option.case prod.case sum.case)
qed


lemma subset_idx_conversion_id: "\<not> has_subsets st \<Longrightarrow> subset_idx_conversion st i = i"
  by (simp add: has_subsets_def subset_idx_conversion_def)

lemma get_num_vectors_plain: "\<not> has_subsets st \<Longrightarrow> get_num_vectors st = int (length (features st))"
  by (simp add: get_num_vectors_def)

lemma fold_max_nth:
  "fold (\<lambda>i m. max m (f (xs ! i))) [0..<length xs] m0 = fold (\<lambda>x m. max m (f x)) xs m0"
proof -
  have "fold (\<lambda>i m. max m (f (xs ! i))) [0..<length xs] m0
          = fold (\<lambda>x m. max m (f x)) (map (\<lambda>i. xs ! i) [0..<length xs]) m0"
    by (simp add: fold_map comp_def)
  then show ?thesis by (simp add: map_nth)
qed

lemma get_max_vector_length_plain:
  "\<not> has_subsets st \<Longrightarrow>
     get_max_vector_length st = fold (\<lambda>v m. max m (vlen v)) (features st) 0"
  unfolding get_max_vector_length_def
  by (simp add: get_num_vectors_plain subset_idx_conversion_id fold_max_nth)

lemma fold_max_less:
  "m0 < B \<Longrightarrow> \<forall>v\<in>set xs. f v < B \<Longrightarrow> fold (\<lambda>v m. max m (f v)) xs (m0 :: int) < B"
  by (induction xs arbitrary: m0) simp_all

lemma fold_max_ge_init: "m0 \<le> fold (\<lambda>v m. max m (f v)) xs (m0 :: int)"
proof (induction xs arbitrary: m0)
  case Nil
  show ?case by simp
next
  case (Cons x xs)
  have "m0 \<le> max m0 (f x)" by simp
  also have "\<dots> \<le> fold (\<lambda>v m. max m (f v)) xs (max m0 (f x))" by (rule Cons.IH)
  finally show ?case by simp
qed

lemma fold_max_ge_elem:
  "v \<in> set xs \<Longrightarrow> f v \<le> fold (\<lambda>v m. max m (f v)) xs (m0 :: int)"
proof (induction xs arbitrary: m0)
  case Nil
  then show ?case by simp
next
  case (Cons x xs)
  show ?case
  proof (cases "v = x")
    case True
    have "f v \<le> max m0 (f x)" using True by simp
    also have "\<dots> \<le> fold (\<lambda>v m. max m (f v)) xs (max m0 (f x))" by (rule fold_max_ge_init)
    finally show ?thesis by simp
  next
    case False
    then show ?thesis using Cons by simp
  qed
qed

lemma get_feature_vector_plain:
  assumes "\<not> has_subsets st" "\<not> preprocess_on_get st" "i < length (features st)"
  shows "get_feature_vector E st i = Inr (vector (features st ! i), vlen (features st ! i))"
  using assms by (simp add: get_feature_vector_def get_num_vectors_plain subset_idx_conversion_id)

lemma save_frames_eq:
  assumes "\<not> has_subsets st" "\<not> preprocess_on_get st"
  shows "\<forall>i\<in>set idx. i < length (features st) \<Longrightarrow>
         save_frames E st c level idx f0
           = Inr (f0 @ concat (map (\<lambda>i. save_frame E c level (vector (features st ! i))
                                        (vlen (features st ! i))) idx))"
  by (induction idx arbitrary: f0) (simp_all add: get_feature_vector_plain[OF assms])

lemma save_frame_frame_bytes:
  "save_frame E c level (vector v) (vlen v) = frame_bytes E (saved_frame E c level v)"
  by (simp add: save_frame_def frame_bytes_def saved_frame_def elements_def Let_def)

lemma save_compressed_eq:
  assumes "\<not> has_subsets st" "\<not> preprocess_on_get st"
  shows "save_compressed E st True c level
           = Inr (Some (file_header E c (get_alphabet (alphabet st)) (int (length (features st)))
                          (get_max_vector_length st)
                        @ concat (map (frame_bytes E) (map (saved_frame E c level) (features st)))))"
proof -
  have "concat (map (\<lambda>i. save_frame E c level (vector (features st ! i)) (vlen (features st ! i)))
                 [0..<length (features st)])
        = concat (map (\<lambda>v. frame_bytes E (saved_frame E c level v))
                    (map (\<lambda>i. features st ! i) [0..<length (features st)]))"
    by (simp add: save_frame_frame_bytes comp_def)
  also have "\<dots> = concat (map (frame_bytes E) (map (saved_frame E c level) (features st)))"
    by (simp add: map_nth comp_def)
  finally show ?thesis
    using assms
    by (simp add: save_compressed_def Let_def get_num_vectors_plain save_frames_eq[OF assms])
qed

lemma scast_of_int_32_64:
  "0 \<le> x \<Longrightarrow> x < 2 ^ 31 \<Longrightarrow> (scast (of_int x :: 32 word) :: 64 word) = of_nat (nat x)"
proof -
  assume a: "0 \<le> x" "x < 2 ^ 31"
  have "(scast (of_int x :: 32 word) :: 64 word) = of_int (sint (of_int x :: 32 word))"
    by (rule scast_eq)
  also have "\<dots> = of_int x" using a by (simp only: sint_of_int_32)
  also have "\<dots> = of_nat (nat x)" using a by simp
  finally show ?thesis .
qed

lemma saved_frame_loads:
  assumes ok: "codec_env_ok E"
    and v: "0 \<le> vlen v" "vlen v < 2 ^ 31" "nat (vlen v) \<le> length (vector v)"
  shows "frame_size_ok E uninit c (saved_frame E c level v)"
    and "frame_vector E uninit c (saved_frame E c level v) = \<lparr>vector = elements v, vlen = vlen v\<rparr>"
proof -
  let ?xs = "ST_bytes E (elements v)"
  let ?dst = "ST_bytes E (vector (SGVector_alloc uninit (sint (of_int (vlen v) :: 32 word))))"
  have s: "sint (of_int (vlen v) :: 32 word) = vlen v"
    using v by (simp add: sint_of_int_32)
  have le: "length (elements v) = nat (vlen v)"
    using v(3) by (simp add: elements_def)
  have lb: "length (ST_bytes E ys) = length ys * sizeof_ST E" for ys
    using ok by (simp add: codec_env_ok_def)
  have ld: "length ?dst = length ?xs"
    by (simp add: s SGVector_alloc_def lb le)
  have sz: "(scast (of_int (vlen v) :: 32 word) :: 64 word) * of_nat (sizeof_ST E)
              = of_nat (length ?xs)"
    using v(1,2) by (simp add: scast_of_int_32_64 lb le)
  have d: "decompress E c (compress E c ?xs level) ?dst (of_nat (length ?xs))
             = (?xs, of_nat (length ?xs))"
    using ok ld unfolding codec_env_ok_def by blast
  have inv: "bytes_ST E ?xs = elements v"
    using ok by (simp add: codec_env_ok_def)
  show "frame_size_ok E uninit c (saved_frame E c level v)"
    unfolding frame_size_ok_def saved_frame_def fst_conv snd_conv sz d by simp
  show "frame_vector E uninit c (saved_frame E c level v) = \<lparr>vector = elements v, vlen = vlen v\<rparr>"
    unfolding frame_vector_def saved_frame_def fst_conv snd_conv sz d
    by (simp add: inv s SGVector_alloc_def)
qed

lemma of_le32_le32: "of_le32 (le32 w) = w"
proof (rule bit_word_eqI)
  fix n assume "n < LENGTH(32)"
  then have n: "n < 32" by simp
  consider "n < 8" | "8 \<le> n" "n < 16" | "16 \<le> n" "n < 24" | "24 \<le> n" "n < 32"
    using n by linarith
  then show "bit (of_le32 (le32 w)) n = bit w n"
    by cases (auto simp: of_le32_def le32_def bit_simps)
qed

lemma length_le32: "length (le32 w) = 4"
  by (simp add: le32_def)


lemma byte_env_ok: "codec_env_ok byte_env"
  unfolding codec_env_ok_def
  by (simp add: byte_env_def of_le32_le32 length_le32 comp_def)

text \<open>
  Claim C1, as amended.  Let the store hold the sequences \<open>S\<close> with no active subset
  and with on-the-fly preprocessing off, at least one of them non-empty, all counts and
  lengths within \<^verbatim>\<open>int32_t\<close>.  Then \<^verbatim>\<open>save_compressed\<close> writes a file, and
  \<^verbatim>\<open>load_compressed\<close> in eager mode reads that file into a store whose sequences are
  the sequences of \<open>S\<close>, element for element and with the same lengths (the return
  value is false, as on every path).  And in eager mode a file with a well-formed
  header in which some frame decompresses to a size other than its declared
  uncompressed length makes the load fail, on the assertion.
\<close>

theorem compressed_round_trip:
  fixes st :: "'a CStringFeatures"
  shows
  "(codec_env_ok E \<and> \<not> has_subsets st \<and> \<not> preprocess_on_get st \<and>
    length (features st) < 2 ^ 31 \<and>
    (\<forall>v\<in>set (features st). 0 \<le> vlen v \<and> vlen v < 2 ^ 31 \<and> nat (vlen v) \<le> length (vector v) \<and>
        length (compress E c (ST_bytes E (elements v)) level) < 2 ^ 31) \<and>
    (\<exists>v\<in>set (features st). 0 < vlen v) \<longrightarrow>
    (\<exists>bytes st'. save_compressed E st True c level = Inr (Some bytes) \<and>
        load_compressed E uninit st0 (Some bytes) True = (Inr False, st') \<and>
        features st' = map (\<lambda>v. \<lparr>vector = elements v, vlen = vlen v\<rparr>) (features st))) \<and>
   (codec_env_ok E \<and> frs \<noteq> [] \<and> length frs < 2 ^ 31 \<and> 0 < m \<and> m < 2 ^ 31 \<and>
    (\<forall>fr\<in>set frs. length (snd fr) < 2 ^ 31) \<and>
    (\<exists>fr\<in>set frs. \<not> frame_size_ok E uninit c fr) \<longrightarrow>
    fst (load_compressed E uninit st0
           (Some (file_header E c a (int (length frs)) m @ concat (map (frame_bytes E) frs))) True)
      = Inl AssertionFailed)"
proof (intro conjI impI)
  assume a: "codec_env_ok E \<and> \<not> has_subsets st \<and> \<not> preprocess_on_get st \<and>
    length (features st) < 2 ^ 31 \<and>
    (\<forall>v\<in>set (features st). 0 \<le> vlen v \<and> vlen v < 2 ^ 31 \<and> nat (vlen v) \<le> length (vector v) \<and>
        length (compress E c (ST_bytes E (elements v)) level) < 2 ^ 31) \<and>
    (\<exists>v\<in>set (features st). 0 < vlen v)"
  then have ok: "codec_env_ok E" and ns: "\<not> has_subsets st" and np: "\<not> preprocess_on_get st"
    and n: "length (features st) < 2 ^ 31"
    and vs: "\<forall>v\<in>set (features st). 0 \<le> vlen v \<and> vlen v < 2 ^ 31 \<and> nat (vlen v) \<le> length (vector v) \<and>
        length (compress E c (ST_bytes E (elements v)) level) < 2 ^ 31"
    and ne: "\<exists>v\<in>set (features st). 0 < vlen v"
    by simp_all
  let ?frs = "map (saved_frame E c level) (features st)"
  let ?m = "get_max_vector_length st"
  let ?bytes = "file_header E c (get_alphabet (alphabet st)) (int (length ?frs)) ?m
                  @ concat (map (frame_bytes E) ?frs)"
  have sv: "save_compressed E st True c level = Inr (Some ?bytes)"
    using save_compressed_eq[OF ns np] by simp
  have m1: "0 < ?m"
  proof -
    from ne obtain v where v: "v \<in> set (features st)" "0 < vlen v" by blast
    have "vlen v \<le> ?m"
      unfolding get_max_vector_length_plain[OF ns] using v(1) by (rule fold_max_ge_elem)
    then show ?thesis using v(2) by simp
  qed
  have m2: "?m < 2 ^ 31"
    unfolding get_max_vector_length_plain[OF ns]
    using vs by (intro fold_max_less) simp_all
  have ne': "?frs \<noteq> []" using ne by auto
  have n': "length ?frs < 2 ^ 31" using n by simp
  have good: "\<forall>fr\<in>set ?frs. length (snd fr) < 2 ^ 31 \<and> frame_size_ok E uninit (c) fr"
    using vs saved_frame_loads(1)[OF ok] by (auto simp: saved_frame_def)
  have vecs: "map (frame_vector E uninit c) ?frs
                = map (\<lambda>v. \<lparr>vector = elements v, vlen = vlen v\<rparr>) (features st)"
    using vs saved_frame_loads(2)[OF ok] by auto
  have lf: "load_frames E uninit True c (length ?frs) (concat (map (frame_bytes E) ?frs)) []
              = (None, map (frame_vector E uninit c) ?frs)"
    using load_frames_all_ok[OF ok good, of "[]" "[]"] by simp
  have "load_compressed E uninit st0 (Some ?bytes) True
          = (Inr False, (snd (cleanup (remove_all_subsets st0)))
               \<lparr>alphabet := new_CAlphabet (get_alphabet (alphabet st)),
                features := map (frame_vector E uninit c) ?frs\<rparr>)"
    unfolding load_compressed_layout[OF ok ne' n' m1 m2] lf by simp
  then show "\<exists>bytes st'. save_compressed E st True c level = Inr (Some bytes) \<and>
        load_compressed E uninit st0 (Some bytes) True = (Inr False, st') \<and>
        features st' = map (\<lambda>v. \<lparr>vector = elements v, vlen = vlen v\<rparr>) (features st)"
    using sv vecs by simp
next
  assume b: "codec_env_ok E \<and> frs \<noteq> [] \<and> length frs < 2 ^ 31 \<and> 0 < m \<and> m < 2 ^ 31 \<and>
    (\<forall>fr\<in>set frs. length (snd fr) < 2 ^ 31) \<and>
    (\<exists>fr\<in>set frs. \<not> frame_size_ok E uninit c fr)"
  then have ok: "codec_env_ok E" and ne: "frs \<noteq> []" and n: "length frs < 2 ^ 31"
    and m: "0 < m" "m < 2 ^ 31"
    and len: "\<forall>fr\<in>set frs. length (snd fr) < 2 ^ 31"
    and bad: "\<exists>fr\<in>set frs. \<not> frame_size_ok E uninit c fr"
    by simp_all
  have "fst (load_frames E uninit True c (length frs) (concat (map (frame_bytes E) frs)) [])
          = Some AssertionFailed"
    using load_frames_some_bad[OF ok len bad, of "[]" "[]"] by simp
  then show "fst (load_compressed E uninit st0
           (Some (file_header E c a (int (length frs)) m @ concat (map (frame_bytes E) frs))) True)
      = Inl AssertionFailed"
    unfolding load_compressed_layout[OF ok ne n m]
    by (auto split: prod.splits option.splits)
qed

theorem compressed_round_trip_witness:
  "(\<exists>bytes st'. save_compressed byte_env (store_of 0 [[65, 67], [71]]) True 0 1 = Inr (Some bytes) \<and>
        load_compressed byte_env 0 (empty_store 0) (Some bytes) True = (Inr False, st') \<and>
        features st' = [SGVector_of [65, 67], SGVector_of [71]]) \<and>
   fst (load_compressed byte_env 0 (empty_store 0)
          (Some (file_header byte_env 0 0 1 2 @ frame_bytes byte_env (2, [1]))) True)
     = Inl AssertionFailed"
proof -
  let ?st = "store_of 0 [[65, 67], [71 :: 8 word]]"
  have h1: "\<not> has_subsets ?st \<and> \<not> preprocess_on_get ?st \<and> length (features ?st) < 2 ^ 31"
    by (simp add: store_of_def empty_store_def has_subsets_def)
  have h2: "\<forall>v\<in>set (features ?st). 0 \<le> vlen v \<and> vlen v < 2 ^ 31 \<and> nat (vlen v) \<le> length (vector v) \<and>
        length (compress byte_env 0 (ST_bytes byte_env (elements v)) 1) < 2 ^ 31"
    by (simp add: store_of_def empty_store_def SGVector_of_def byte_env_def elements_def)
  have h3: "\<exists>v\<in>set (features ?st). 0 < vlen v"
    by (simp add: store_of_def empty_store_def SGVector_of_def)
  have f: "map (\<lambda>v. \<lparr>vector = elements v, vlen = vlen v\<rparr>) (features ?st)
             = [SGVector_of [65, 67], SGVector_of [71]]"
    by (simp add: store_of_def empty_store_def SGVector_of_def elements_def)
  have bad: "\<not> frame_size_ok byte_env 0 0 (2, [1])"
    by (simp add: frame_size_ok_def byte_env_def)
  show ?thesis
    using compressed_round_trip[of byte_env ?st 0 1 0 "empty_store 0" "[(2, [1])]" 2 0]
      byte_env_ok h1 h2 h3 bad
    by (simp add: f)
qed

text \<open>
  The claim as stated, for every non-empty sequence set, fails twice.  A store holding
  one empty sequence is saved with the maximum length \<open>0\<close>, and the load asserts that
  this field is positive.  With on-the-fly preprocessing on, what is saved is the
  preprocessed sequence: with a preprocessor that reverses, \<open>AC\<close> comes back as \<open>CA\<close>.
\<close>

theorem compressed_round_trip_counterexample:
  "(case save_compressed byte_env (store_of 0 [[]]) True 0 1 of
      Inr (Some bytes) \<Rightarrow> fst (load_compressed byte_env 0 (empty_store 0) (Some bytes) True)
    | _ \<Rightarrow> Inr True) = Inl AssertionFailed \<and>
   (case save_compressed (byte_env\<lparr>preprocessors := [rev]\<rparr>)
           ((store_of 0 [[65, 67]])\<lparr>preprocess_on_get := True\<rparr>) True 0 1 of
      Inr (Some bytes) \<Rightarrow>
        map elements (features (snd (load_compressed (byte_env\<lparr>preprocessors := [rev]\<rparr>) 0
                                       (empty_store 0) (Some bytes) True)))
    | _ \<Rightarrow> []) = [[67, 65]]"
  by code_simp

section \<open>The return value of \<^verbatim>\<open>load_compressed\<close>\<close>

lemma load_body_never_true: "fst (load_body E u d c st b) \<noteq> Inr True"
  by (simp add: load_body_def split: sum.splits prod.splits option.splits)

text \<open>
  Claim C10, as amended.  \<^verbatim>\<open>load_compressed\<close> never returns true: whatever the file
  and the mode, the call either throws or returns false, the path on which the header
  is valid and every frame is read and decompressed included.  When the file cannot be
  opened it returns false with the sequences, \<open>single_string\<close> and the alphabet
  untouched; the one change made by then is that of \<^verbatim>\<open>remove_all_subsets()\<close>, the first
  statement of the function.
\<close>

theorem load_compressed_never_true:
  "fst (load_compressed E uninit st file decomp) \<noteq> Inr True \<and>
   load_compressed E uninit st None decomp = (Inr False, remove_all_subsets st) \<and>
   features (remove_all_subsets st) = features st \<and>
   single_string (remove_all_subsets st) = single_string st \<and>
   alphabet (remove_all_subsets st) = alphabet st"
proof (intro conjI)
  show "fst (load_compressed E uninit st file decomp) \<noteq> Inr True"
    by (simp add: load_compressed_def Let_def cleanup_eq load_body_never_true
        split: option.splits sum.splits prod.splits)
qed (simp_all add: load_compressed_def remove_all_subsets_def)

text \<open>
  The claim as stated has the false returned before any mutation.  On a store of two
  sequences with an active subset that selects one, the failed open has already removed
  the subset: the store returned is not the store passed.
\<close>

theorem load_compressed_open_failure_mutates:
  "load_compressed byte_env 0 ((store_of 0 [[65], [67]])\<lparr>m_subset_stack := [[1]]\<rparr>) None True
     \<noteq> (Inr False, (store_of 0 [[65], [67]])\<lparr>m_subset_stack := [[1]]\<rparr>)"
  by (simp add: load_compressed_def remove_all_subsets_def store_of_def empty_store_def)

section \<open>Properties of \<^verbatim>\<open>embed_features\<close>\<close>

lemma remap_prefix:
  "n \<le> length xs \<Longrightarrow>
   length (fold (\<lambda>j str. str[j := R (str ! j)]) [0..<n] xs) = length xs \<and>
   (\<forall>i<length xs. fold (\<lambda>j str. str[j := R (str ! j)]) [0..<n] xs ! i
                     = (if i < n then R (xs ! i) else xs ! i))"
proof (induction n)
  case 0
  then show ?case by simp
next
  case (Suc n)
  then have IH: "length (fold (\<lambda>j str. str[j := R (str ! j)]) [0..<n] xs) = length xs"
    "\<forall>i<length xs. fold (\<lambda>j str. str[j := R (str ! j)]) [0..<n] xs ! i
                     = (if i < n then R (xs ! i) else xs ! i)"
    by simp_all
  have n: "n < length xs" using Suc.prems by simp
  show ?case using IH n by (auto simp: nth_list_update less_Suc_eq)
qed

lemma embed_word_cong:
  "\<forall>i<n. xs ! i = ys ! i \<Longrightarrow> embed_word C st xs n = embed_word C st ys n"
  by (induction n) (simp_all add: embed_word_0 embed_word_Suc)

lemma rolling_invariant:
  fixes orig :: "'a::len word list"
  assumes k: "1 \<le> k"
    and R: "R = remap_cell C (alphabet st)" and nb: "max_val = get_num_bits C (alphabet st)"
    and s2: "length str2 = length orig" "str2 ! 0 = rolling_code C st k msk orig 0"
            "\<forall>t. k \<le> t \<and> t < length orig \<longrightarrow> str2 ! t = orig ! t"
  shows "k + d \<le> length orig \<Longrightarrow>
         length (fold (embed_step R k max_val msk) [k..<k + d] str2) = length orig \<and>
         (\<forall>t\<le>d. fold (embed_step R k max_val msk) [k..<k + d] str2 ! t = rolling_code C st k msk orig t) \<and>
         (\<forall>t. k + d \<le> t \<and> t < length orig \<longrightarrow>
              fold (embed_step R k max_val msk) [k..<k + d] str2 ! t = orig ! t)"
proof (induction d)
  case 0
  then show ?case using s2 by simp
next
  case (Suc d)
  let ?s = "fold (embed_step R k max_val msk) [k..<k + d] str2"
  from Suc have len: "length ?s = length orig"
    and codes: "\<forall>t\<le>d. ?s ! t = rolling_code C st k msk orig t"
    and rest: "\<forall>t. k + d \<le> t \<and> t < length orig \<longrightarrow> ?s ! t = orig ! t"
    by simp_all
  have j: "k + d < length orig" using Suc.prems by simp
  let ?s' = "?s[k + d := R (?s ! (k + d))]"
  have step: "fold (embed_step R k max_val msk) [k..<k + Suc d] str2
                = ?s'[d + 1 := (push_bit max_val (?s' ! d) OR ?s' ! (k + d)) AND msk]"
    by (simp add: embed_step_def Let_def)
  have sj: "?s ! (k + d) = orig ! (k + d)" using rest j by simp
  have d_lt: "d < k + d" using k by simp
  have s'd: "?s' ! d = rolling_code C st k msk orig d"
    using codes d_lt by simp
  have s'j: "?s' ! (k + d) = R (orig ! (k + d))"
    using j len sj by simp
  have rc: "rolling_code C st k msk orig (Suc d)
              = (push_bit max_val (rolling_code C st k msk orig d) OR R (orig ! (k + d))) AND msk"
    by (simp add: R nb add.commute)
  have new: "(push_bit max_val (?s' ! d) OR ?s' ! (k + d)) AND msk
               = rolling_code C st k msk orig (Suc d)"
    by (simp only: s'd s'j rc)
  have d1: "d + 1 < length orig" using j k by simp
  have "\<forall>t\<le>Suc d. fold (embed_step R k max_val msk) [k..<k + Suc d] str2 ! t
           = rolling_code C st k msk orig t"
  proof (intro allI impI)
    fix t assume t: "t \<le> Suc d"
    show "fold (embed_step R k max_val msk) [k..<k + Suc d] str2 ! t = rolling_code C st k msk orig t"
    proof (cases "t = Suc d")
      case True
      then show ?thesis unfolding step new using d1 len by simp
    next
      case False
      then have td: "t \<le> d" using t by simp
      then have "t \<noteq> d + 1" "t \<noteq> k + d" using k by simp_all
      then show ?thesis unfolding step using codes td by simp
    qed
  qed
  moreover have "\<forall>t. k + Suc d \<le> t \<and> t < length orig \<longrightarrow>
        fold (embed_step R k max_val msk) [k..<k + Suc d] str2 ! t = orig ! t"
  proof (intro allI impI)
    fix t assume t: "k + Suc d \<le> t \<and> t < length orig"
    then have "t \<noteq> d + 1" "t \<noteq> k + d" using k by simp_all
    then show "fold (embed_step R k max_val msk) [k..<k + Suc d] str2 ! t = orig ! t"
      unfolding step using rest t by simp
  qed
  moreover have "length (fold (embed_step R k max_val msk) [k..<k + Suc d] str2) = length orig"
    unfolding step using len by simp
  ultimately show ?case by blast
qed

lemma embed_vector_ok:
  fixes v :: "'a::len word SGVector"
  assumes k: "1 \<le> k" and lk: "int k \<le> vlen v" and wf: "vlen v \<le> int (length (vector v))"
  shows "\<exists>v'. embed_vector C st (int k) (get_num_bits C (alphabet st)) msk v = Inr v' \<and>
           vlen v' = vlen v - int k + 1 \<and>
           (\<forall>t\<le>nat (vlen v) - k. vector v' ! t = rolling_code C st k msk (vector v) t)"
proof -
  let ?R = "remap_cell C (alphabet st)"
  let ?nb = "get_num_bits C (alphabet st)"
  let ?orig = "vector v"
  let ?L = "nat (vlen v)"
  let ?str1 = "fold (\<lambda>j str. str[j := ?R (str ! j)]) [0..<k] ?orig"
  let ?str2 = "?str1[0 := embed_word C st ?str1 k]"
  have kl: "k \<le> length ?orig" "k \<le> ?L" "?L \<le> length ?orig" using lk wf by simp_all
  from remap_prefix[OF kl(1), of ?R]
  have l1: "length ?str1 = length ?orig"
    and c1: "\<forall>i<length ?orig. ?str1 ! i = (if i < k then ?R (?orig ! i) else ?orig ! i)"
    by simp_all
  have ew: "embed_word C st ?str1 k = rolling_code C st k msk ?orig 0"
    using c1 kl(1) by (simp add: embed_word_cong[of k ?str1 "map ?R ?orig"])
  have s2: "length ?str2 = length ?orig" "?str2 ! 0 = rolling_code C st k msk ?orig 0"
    "\<forall>t. k \<le> t \<and> t < length ?orig \<longrightarrow> ?str2 ! t = ?orig ! t"
  proof -
    have "0 < length ?orig" using k kl(1) by linarith
    then have pos: "0 < length ?str1" by (simp only: l1)
    show "length ?str2 = length ?orig" using l1 by simp
    show "?str2 ! 0 = rolling_code C st k msk ?orig 0"
      using pos by (simp only: nth_list_update_eq ew)
    show "\<forall>t. k \<le> t \<and> t < length ?orig \<longrightarrow> ?str2 ! t = ?orig ! t"
      using c1 k by (auto simp: nth_list_update)
  qed
  have kd: "k + (?L - k) \<le> length ?orig" using kl by simp
  from rolling_invariant[OF k refl refl s2 kd]
  have inv: "\<forall>t\<le>?L - k. fold (embed_step ?R k ?nb msk) [k..<k + (?L - k)] ?str2 ! t
               = rolling_code C st k msk ?orig t"
    by blast
  have up: "k + (?L - k) = ?L" using kl(2) by simp
  have ib: "embed_in_bounds (int k) (vlen v) (int (length ?orig))"
    using k wf by (simp add: embed_in_bounds_def)
  have "embed_vector C st (int k) ?nb msk v
          = Inr \<lparr>vector = fold (embed_step ?R k ?nb msk) [k..<?L] ?str2, vlen = vlen v - int k + 1\<rparr>"
    using lk ib by (simp add: embed_vector_def Let_def)
  then show ?thesis using inv up by simp
qed

lemma embed_vector_short:
  "vlen v < p_order \<Longrightarrow> embed_vector C st p_order max_val msk v = Inl ShogunException"
  by (simp add: embed_vector_def)


lemma embed_word_alphabet:
  "alphabet st' = alphabet st \<Longrightarrow> embed_word C st' xs n = embed_word C st xs n"
  unfolding embed_word_def by simp

lemma embed_vector_alphabet:
  assumes "alphabet st' = alphabet st"
  shows "embed_vector C st' p_order max_val msk v = embed_vector C st p_order max_val msk v"
  unfolding embed_vector_def embed_word_alphabet[OF assms] assms ..

lemma embed_loop_all_ok:
  fixes vs :: "'a::len word SGVector list"
  assumes k: "1 \<le> k"
  shows "\<forall>v\<in>set vs. int k \<le> vlen v \<and> vlen v \<le> int (length (vector v)) \<Longrightarrow>
         \<exists>fs. embed_loop C st (int k) (get_num_bits C (alphabet st)) msk vs acc = (None, acc @ fs) \<and>
              length fs = length vs \<and>
              (\<forall>i<length vs. vlen (fs ! i) = vlen (vs ! i) - int k + 1 \<and>
                 (\<forall>t\<le>nat (vlen (vs ! i)) - k.
                     vector (fs ! i) ! t = rolling_code C st k msk (vector (vs ! i)) t))"
proof (induction vs arbitrary: acc)
  case Nil
  then show ?case by simp
next
  case (Cons v vs)
  from Cons.prems have v: "int k \<le> vlen v" "vlen v \<le> int (length (vector v))"
    and rest: "\<forall>v\<in>set vs. int k \<le> vlen v \<and> vlen v \<le> int (length (vector v))"
    by simp_all
  from embed_vector_ok[OF k v, of C st msk] obtain v' where
    v': "embed_vector C st (int k) (get_num_bits C (alphabet st)) msk v = Inr v'"
      "vlen v' = vlen v - int k + 1"
      "\<forall>t\<le>nat (vlen v) - k. vector v' ! t = rolling_code C st k msk (vector v) t"
    by blast
  from Cons.IH[OF rest, of "acc @ [v']"] obtain fs where
    fs: "embed_loop C st (int k) (get_num_bits C (alphabet st)) msk vs (acc @ [v'])
           = (None, (acc @ [v']) @ fs)"
      "length fs = length vs"
      "\<forall>i<length vs. vlen (fs ! i) = vlen (vs ! i) - int k + 1 \<and>
                 (\<forall>t\<le>nat (vlen (vs ! i)) - k.
                     vector (fs ! i) ! t = rolling_code C st k msk (vector (vs ! i)) t)"
    by blast
  have "\<forall>i<length (v # vs). vlen ((v' # fs) ! i) = vlen ((v # vs) ! i) - int k + 1 \<and>
                 (\<forall>t\<le>nat (vlen ((v # vs) ! i)) - k.
                     vector ((v' # fs) ! i) ! t = rolling_code C st k msk (vector ((v # vs) ! i)) t)"
  proof (intro allI impI)
    fix i assume "i < length (v # vs)"
    then show "vlen ((v' # fs) ! i) = vlen ((v # vs) ! i) - int k + 1 \<and>
                 (\<forall>t\<le>nat (vlen ((v # vs) ! i)) - k.
                     vector ((v' # fs) ! i) ! t = rolling_code C st k msk (vector ((v # vs) ! i)) t)"
      using v'(2,3) fs(3) by (cases i) simp_all
  qed
  then show ?case
    using v'(1) fs(1,2) by (intro exI[of _ "v' # fs"]) simp
qed

lemma embed_loop_short:
  fixes vs :: "'a::len word SGVector list"
  assumes k: "1 \<le> k"
  shows "\<forall>v\<in>set vs. vlen v \<le> int (length (vector v)) \<Longrightarrow>
         \<exists>v\<in>set vs. vlen v < int k \<Longrightarrow>
         fst (embed_loop C st (int k) (get_num_bits C (alphabet st)) msk vs acc)
           = Some ShogunException"
proof (induction vs arbitrary: acc)
  case Nil
  then show ?case by simp
next
  case (Cons v vs)
  show ?case
  proof (cases "vlen v < int k")
    case True
    then show ?thesis by (simp add: embed_vector_short)
  next
    case False
    then have v: "int k \<le> vlen v" "vlen v \<le> int (length (vector v))"
      using Cons.prems(1) by simp_all
    from embed_vector_ok[OF k v, of C st msk] obtain v' where
      "embed_vector C st (int k) (get_num_bits C (alphabet st)) msk v = Inr v'" by blast
    moreover have "\<exists>v\<in>set vs. vlen v < int k" using Cons.prems(2) False by auto
    ultimately show ?thesis using Cons.IH Cons.prems(1) by simp
  qed
qed

lemma embed_loop_alphabet:
  assumes "alphabet st' = alphabet st"
  shows "embed_loop C st' p_order max_val msk vs acc = embed_loop C st p_order max_val msk vs acc"
  by (induction vs arbitrary: acc)
    (simp_all add: embed_vector_alphabet[OF assms] split: sum.splits)

lemma compute_symbol_mask_table_features:
  assumes "\<not> has_subsets s"
  shows "\<exists>s'. compute_symbol_mask_table s max_val = (Inr (), s') \<and> features s' = features s"
proof -
  have "compute_symbol_mask_table s max_val
          = (Inr (), s\<lparr>symbol_mask_table :=
                          map (symbol_mask_entry max_val (all_ones (nat max_val))) [0..<256]\<rparr>)"
    unfolding compute_symbol_mask_table_def Let_def using assms by (simp only: if_False)
  moreover have "features (s\<lparr>symbol_mask_table := T\<rparr>) = features s" for T
    by simp
  ultimately show ?thesis by blast
qed

lemma embed_word_foldl:
  "n \<le> length seq \<Longrightarrow>
   embed_word C st seq n
     = foldl (\<lambda>prev s. push_bit (get_num_bits C (alphabet st)) prev OR s) 0 (take n seq)"
proof (induction n)
  case 0
  show ?case by (simp add: embed_word_0)
next
  case (Suc n)
  then have "take (Suc n) seq = take n seq @ [seq ! n]"
    by (simp add: take_Suc_conv_app_nth)
  then show ?case using Suc by (simp add: embed_word_Suc)
qed

lemma take_bit_foldl_pack:
  fixes syms :: "'a::len word list"
  assumes "\<forall>s\<in>set syms. take_bit nb s = s"
  shows "take_bit (length syms * nb) (foldl (\<lambda>prev s. push_bit nb prev OR s) 0 syms)
           = foldl (\<lambda>prev s. push_bit nb prev OR s) 0 syms"
  using assms
proof (induction syms rule: rev_induct)
  case Nil
  show ?case by simp
next
  case (snoc s syms)
  let ?p = "foldl (\<lambda>prev s. push_bit nb prev OR s) 0 syms"
  have p: "take_bit (length syms * nb) ?p = ?p" using snoc by simp
  have s: "take_bit nb s = s" using snoc.prems by simp
  have "take_bit (nb + length syms * nb) (push_bit nb ?p OR s) = push_bit nb ?p OR s"
  proof (rule bit_eqI)
    fix b
    have sb: "b < nb" if "bit s b"
      using s that by (metis bit_take_bit_iff)
    have pb: "b - nb < length syms * nb" if "bit ?p (b - nb)"
      using p that by (metis bit_take_bit_iff)
    have "b < nb + length syms * nb" if "bit (push_bit nb ?p OR s) b"
    proof (cases "bit s b")
      case True
      then show ?thesis using sb by simp
    next
      case False
      with that have "nb \<le> b" "bit ?p (b - nb)"
        by (simp_all add: bit_or_iff bit_push_bit_iff)
      then show ?thesis using pb by simp
    qed
    then show "bit (take_bit (nb + length syms * nb) (push_bit nb ?p OR s)) b
                       \<longleftrightarrow> bit (push_bit nb ?p OR s) b"
      unfolding bit_take_bit_iff by blast
  qed
  then show ?case by simp
qed

lemma embed_features_features:
  fixes st :: "'a::len word CStringFeatures"
  assumes ns: "\<not> has_subsets st"
    and hist: "0 < get_num_symbols_in_histogram (alphabet st)"
    and lp: "embed_loop C st p (get_num_bits C (alphabet st))
               (all_ones (nat (p * int (get_num_bits C (alphabet st))))) (features st) []
             = (None, fs)"
  shows "fst (embed_features C st p) = Inr () \<and> features (snd (embed_features C st p)) = fs"
proof -
  let ?nb = "get_num_bits C (alphabet st)"
  let ?msk = "all_ones (nat (p * int ?nb)) :: 'a word"
  define st1 where "st1 = st\<lparr>order := p,
                               original_num_symbols := get_num_symbols_a C (alphabet st)\<rparr>"
  define st2 where "st2 = st1\<lparr>num_symbols :=
      (if p > 1 then 2 ^ (get_num_bits C (alphabet st1) * nat p)
       else original_num_symbols st1)\<rparr>"
  have a1: "alphabet st1 = alphabet st" by (simp add: st1_def)
  have a2: "alphabet st2 = alphabet st" by (simp add: st2_def st1_def)
  have f2: "features st2 = features st" by (simp add: st2_def st1_def)
  have ns2: "\<not> has_subsets (st2\<lparr>features := fs\<rparr>)"
    using ns by (simp add: has_subsets_def st2_def st1_def)
  have "embed_features C st p
          = (case embed_loop C st2 p (get_num_bits C (alphabet st1))
                    (all_ones (nat (p * int (get_num_bits C (alphabet st1)))))
                    (features st2) [] of
               (Some e, fs) \<Rightarrow> (Inl e, st2\<lparr>features := fs\<rparr>)
             | (None, fs) \<Rightarrow> compute_symbol_mask_table (st2\<lparr>features := fs\<rparr>)
                               (int (get_num_bits C (alphabet st1))))"
    unfolding embed_features_def Let_def st2_def st1_def
    using ns hist by (simp only: if_False not_not if_True not_True_eq_False)
  then have ef: "embed_features C st p
              = (case embed_loop C st p ?nb ?msk (features st) [] of
                   (Some e, fs) \<Rightarrow> (Inl e, st2\<lparr>features := fs\<rparr>)
                 | (None, fs) \<Rightarrow> compute_symbol_mask_table (st2\<lparr>features := fs\<rparr>) (int ?nb))"
    by (simp only: a1 f2 embed_loop_alphabet[OF a2])
  from compute_symbol_mask_table_features[OF ns2, of "int ?nb"] obtain st' where
    st': "compute_symbol_mask_table (st2\<lparr>features := fs\<rparr>) (int ?nb) = (Inr (), st')"
      "features st' = fs"
    by auto
  have "embed_features C st p = (Inr (), st')"
    unfolding ef lp by (simp only: prod.case option.case st'(1))
  then show ?thesis using st'(2) by simp
qed

text \<open>
  Claim C3.  On a store with no active subset and a non-empty alphabet histogram, for an
  order \<open>k \<ge> 1\<close> and vectors whose declared length does not exceed their buffer:
  if every sequence has a length \<open>L \<ge> k\<close>, \<^verbatim>\<open>embed_features(k)\<close> succeeds and turns
  each into a sequence of length \<open>L - k + 1\<close>.  Its position \<open>0\<close> holds the first \<open>k\<close>
  remapped symbols shift-accumulated from \<open>0\<close>, \<open>code = (code << bits_per_symbol) | remap(symbol i)\<close>
  for \<open>i = 0, \<dots>, k - 1\<close>, without a mask; this code lies within \<open>k * bits_per_symbol\<close> bits
  when every one of these remapped symbols lies within \<open>bits_per_symbol\<close> bits.  Its
  position \<open>j > 0\<close> holds \<open>((prev << bits_per_symbol) | remap(symbol j+k-1))\<close> masked to
  \<open>k * bits_per_symbol\<close> bits, \<open>prev\<close> being position \<open>j - 1\<close>.  And if some sequence has
  \<open>L < k\<close> the call fails with an exception.
\<close>

theorem embed_features_rolling_codes:
  fixes st :: "'a::len word CStringFeatures"
  assumes ns: "\<not> has_subsets st"
    and hist: "0 < get_num_symbols_in_histogram (alphabet st)"
    and k: "1 \<le> k"
    and wf: "\<forall>v\<in>set (features st). vlen v \<le> int (length (vector v))"
  shows
   "((\<forall>v\<in>set (features st). int k \<le> vlen v) \<longrightarrow>
       (\<exists>st'. embed_features C st (int k) = (Inr (), st') \<and>
          length (features st') = length (features st) \<and>
          (\<forall>i<length (features st).
              vlen (features st' ! i) = vlen (features st ! i) - int k + 1 \<and>
              vector (features st' ! i) ! 0
                = foldl (\<lambda>prev s. push_bit (get_num_bits C (alphabet st)) prev OR s) 0
                    (map (remap_cell C (alphabet st)) (take k (vector (features st ! i)))) \<and>
              ((\<forall>s\<in>set (take k (vector (features st ! i))).
                   take_bit (get_num_bits C (alphabet st)) (remap_cell C (alphabet st) s)
                     = remap_cell C (alphabet st) s) \<longrightarrow>
                 take_bit (k * get_num_bits C (alphabet st)) (vector (features st' ! i) ! 0)
                   = vector (features st' ! i) ! 0) \<and>
              (\<forall>j. 0 < j \<and> int j < vlen (features st ! i) - int k + 1 \<longrightarrow>
                  vector (features st' ! i) ! j
                    = take_bit (k * get_num_bits C (alphabet st))
                        (push_bit (get_num_bits C (alphabet st)) (vector (features st' ! i) ! (j - 1))
                           OR remap_cell C (alphabet st) (vector (features st ! i) ! (j + k - 1))))))) \<and>
    ((\<exists>v\<in>set (features st). vlen v < int k) \<longrightarrow>
       fst (embed_features C st (int k)) = Inl ShogunException)"
proof -
  let ?nb = "get_num_bits C (alphabet st)"
  let ?msk = "all_ones (nat (int k * int ?nb)) :: 'a word"
  define st1 where "st1 = st\<lparr>order := int k,
                               original_num_symbols := get_num_symbols_a C (alphabet st)\<rparr>"
  define st2 where "st2 = st1\<lparr>num_symbols :=
      (if int k > 1 then 2 ^ (get_num_bits C (alphabet st1) * nat (int k))
       else original_num_symbols st1)\<rparr>"
  have a1: "alphabet st1 = alphabet st" by (simp add: st1_def)
  have a2: "alphabet st2 = alphabet st" by (simp add: st2_def st1_def)
  have f2: "features st2 = features st" by (simp add: st2_def st1_def)
  have ns2: "\<not> has_subsets (st2\<lparr>features := fs\<rparr>)" for fs
    using ns by (simp add: has_subsets_def st2_def st1_def)
  have msk: "?msk = mask (k * ?nb)"
    by (simp add: all_ones_mask nat_mult_distrib)
  have "embed_features C st (int k)
          = (case embed_loop C st2 (int k) (get_num_bits C (alphabet st1))
                    (all_ones (nat (int k * int (get_num_bits C (alphabet st1)))))
                    (features st2) [] of
               (Some e, fs) \<Rightarrow> (Inl e, st2\<lparr>features := fs\<rparr>)
             | (None, fs) \<Rightarrow> compute_symbol_mask_table (st2\<lparr>features := fs\<rparr>)
                               (int (get_num_bits C (alphabet st1))))"
    unfolding embed_features_def Let_def st2_def st1_def
    using ns hist by (simp only: if_False not_not if_True not_True_eq_False)
  then have ef: "embed_features C st (int k)
              = (case embed_loop C st (int k) ?nb ?msk (features st) [] of
                   (Some e, fs) \<Rightarrow> (Inl e, st2\<lparr>features := fs\<rparr>)
                 | (None, fs) \<Rightarrow> compute_symbol_mask_table (st2\<lparr>features := fs\<rparr>) (int ?nb))"
    by (simp only: a1 f2 embed_loop_alphabet[OF a2])
  show ?thesis
  proof (intro conjI impI)
    assume long: "\<forall>v\<in>set (features st). int k \<le> vlen v"
    then have "\<forall>v\<in>set (features st). int k \<le> vlen v \<and> vlen v \<le> int (length (vector v))"
      using wf by simp
    from embed_loop_all_ok[OF k this, of C st ?msk "[]"] obtain fs where
      fs: "embed_loop C st (int k) ?nb ?msk (features st) [] = (None, fs)"
        "length fs = length (features st)"
        "\<forall>i<length (features st). vlen (fs ! i) = vlen (features st ! i) - int k + 1 \<and>
           (\<forall>t\<le>nat (vlen (features st ! i)) - k.
               vector (fs ! i) ! t = rolling_code C st k ?msk (vector (features st ! i)) t)"
      by auto
    from compute_symbol_mask_table_features[OF ns2[of fs], of "int ?nb"] obtain st' where
      st': "compute_symbol_mask_table (st2\<lparr>features := fs\<rparr>) (int ?nb) = (Inr (), st')"
        "features st' = fs"
      by auto
    have res: "embed_features C st (int k) = (Inr (), st')"
      unfolding ef fs(1) by (simp only: prod.case option.case st'(1))
    have cells: "vlen (fs ! i) = vlen (features st ! i) - int k + 1 \<and>
              vector (fs ! i) ! 0
                = foldl (\<lambda>prev s. push_bit ?nb prev OR s) 0
                    (map (remap_cell C (alphabet st)) (take k (vector (features st ! i)))) \<and>
              ((\<forall>s\<in>set (take k (vector (features st ! i))).
                   take_bit ?nb (remap_cell C (alphabet st) s) = remap_cell C (alphabet st) s) \<longrightarrow>
                 take_bit (k * ?nb) (vector (fs ! i) ! 0) = vector (fs ! i) ! 0) \<and>
              (\<forall>j. 0 < j \<and> int j < vlen (features st ! i) - int k + 1 \<longrightarrow>
                  vector (fs ! i) ! j
                    = take_bit (k * ?nb)
                        (push_bit ?nb (vector (fs ! i) ! (j - 1))
                           OR remap_cell C (alphabet st) (vector (features st ! i) ! (j + k - 1))))"
      if i: "i < length (features st)" for i
    proof -
      let ?v = "features st ! i"
      have kl: "int k \<le> vlen ?v" using long i by simp
      from fs(3) i have vl: "vlen (fs ! i) = vlen ?v - int k + 1"
        and codes: "\<forall>t\<le>nat (vlen ?v) - k. vector (fs ! i) ! t = rolling_code C st k ?msk (vector ?v) t"
        by simp_all
      have kv: "k \<le> length (vector ?v)"
        using kl wf i by (meson nth_mem of_nat_le_iff order_trans)
      have e0: "vector (fs ! i) ! 0 = embed_word C st (map (remap_cell C (alphabet st)) (vector ?v)) k"
        using codes by simp
      have c0: "vector (fs ! i) ! 0
                  = foldl (\<lambda>prev s. push_bit ?nb prev OR s) 0
                      (map (remap_cell C (alphabet st)) (take k (vector ?v)))"
        unfolding e0 using kv by (simp add: embed_word_foldl take_map)
      have m0: "take_bit (k * ?nb) (vector (fs ! i) ! 0) = vector (fs ! i) ! 0"
        if "\<forall>s\<in>set (take k (vector ?v)).
              take_bit ?nb (remap_cell C (alphabet st) s) = remap_cell C (alphabet st) s"
        unfolding c0
        using take_bit_foldl_pack[of "map (remap_cell C (alphabet st)) (take k (vector ?v))" ?nb]
          that kv by simp
      have rec: "vector (fs ! i) ! j
                    = take_bit (k * ?nb)
                        (push_bit ?nb (vector (fs ! i) ! (j - 1))
                           OR remap_cell C (alphabet st) (vector ?v ! (j + k - 1)))"
        if j: "0 < j \<and> int j < vlen ?v - int k + 1" for j
      proof -
        obtain t where t: "j = Suc t" using j by (cases j) simp_all
        have le: "Suc t \<le> nat (vlen ?v) - k" "t \<le> nat (vlen ?v) - k"
          using j kl t by simp_all
        have "vector (fs ! i) ! Suc t = rolling_code C st k ?msk (vector ?v) (Suc t)"
          using codes le(1) by blast
        moreover have "vector (fs ! i) ! t = rolling_code C st k ?msk (vector ?v) t"
          using codes le(2) by blast
        ultimately show ?thesis
          unfolding t by (simp add: msk take_bit_eq_mask)
      qed
      show ?thesis using vl c0 m0 rec by blast
    qed
    show "\<exists>st'. embed_features C st (int k) = (Inr (), st') \<and>
          length (features st') = length (features st) \<and>
          (\<forall>i<length (features st).
              vlen (features st' ! i) = vlen (features st ! i) - int k + 1 \<and>
              vector (features st' ! i) ! 0
                = foldl (\<lambda>prev s. push_bit (get_num_bits C (alphabet st)) prev OR s) 0
                    (map (remap_cell C (alphabet st)) (take k (vector (features st ! i)))) \<and>
              ((\<forall>s\<in>set (take k (vector (features st ! i))).
                   take_bit (get_num_bits C (alphabet st)) (remap_cell C (alphabet st) s)
                     = remap_cell C (alphabet st) s) \<longrightarrow>
                 take_bit (k * get_num_bits C (alphabet st)) (vector (features st' ! i) ! 0)
                   = vector (features st' ! i) ! 0) \<and>
              (\<forall>j. 0 < j \<and> int j < vlen (features st ! i) - int k + 1 \<longrightarrow>
                  vector (features st' ! i) ! j
                    = take_bit (k * get_num_bits C (alphabet st))
                        (push_bit (get_num_bits C (alphabet st)) (vector (features st' ! i) ! (j - 1))
                           OR remap_cell C (alphabet st) (vector (features st ! i) ! (j + k - 1)))))"
      using res fs(2) cells unfolding st'(2)[symmetric] by blast
  next
    assume "\<exists>v\<in>set (features st). vlen v < int k"
    from embed_loop_short[OF k wf this, of C st ?msk "[]"]
    have "fst (embed_loop C st (int k) ?nb ?msk (features st) []) = Some ShogunException" .
    then show "fst (embed_features C st (int k)) = Inl ShogunException"
      unfolding ef by (auto split: prod.splits option.splits)
  qed
qed

theorem embed_features_rolling_codes_witness:
  "(\<exists>st'. embed_features dna_class (dna_store [[67, 65, 71, 84]]) 3 = (Inr (), st') \<and>
          length (features st') = 1 \<and>
          vlen (features st' ! 0) = 2 \<and>
          vector (features st' ! 0) ! 0 = 18 \<and>
          take_bit 6 (vector (features st' ! 0) ! 0) = vector (features st' ! 0) ! 0 \<and>
          vector (features st' ! 0) ! 1 = 11) \<and>
   fst (embed_features dna_class (dna_store [[67, 65, 71, 84], [65, 67]]) 3) = Inl ShogunException"
proof -
  let ?st = "dna_store [[67, 65, 71, 84]]"
  let ?sh = "dna_store [[67, 65, 71, 84], [65, 67]]"
  have ns: "\<not> has_subsets ?st" "\<not> has_subsets ?sh"
    by (simp_all add: dna_store_def store_of_def empty_store_def has_subsets_def)
  have h: "0 < get_num_symbols_in_histogram (alphabet ?st)"
    "0 < get_num_symbols_in_histogram (alphabet ?sh)"
    by code_simp+
  have f: "features ?st = [SGVector_of [67, 65, 71, 84]]"
    "features ?sh = [SGVector_of [67, 65, 71, 84], SGVector_of [65, 67]]"
    by (simp_all add: dna_store_def store_of_def empty_store_def)
  have wf: "\<forall>v\<in>set (features ?st). vlen v \<le> int (length (vector v))"
    "\<forall>v\<in>set (features ?sh). vlen v \<le> int (length (vector v))"
    by (simp_all add: f SGVector_of_def)
  have long: "\<forall>v\<in>set (features ?st). int 3 \<le> vlen v"
    by (simp add: f SGVector_of_def)
  have short: "\<exists>v\<in>set (features ?sh). vlen v < int 3"
    by (simp add: f SGVector_of_def)
  have nb: "get_num_bits dna_class (alphabet ?st) = 2"
    by (simp add: get_num_bits_def dna_class_def)
  have vec: "vector (features ?st ! 0) = [67, 65, 71, 84]"
    by (simp add: f SGVector_of_def)
  have r: "remap_cell dna_class (alphabet ?st) (67 :: 8 word) = 1"
    "remap_cell dna_class (alphabet ?st) (65 :: 8 word) = 0"
    "remap_cell dna_class (alphabet ?st) (71 :: 8 word) = 2"
    "remap_cell dna_class (alphabet ?st) (84 :: 8 word) = 3"
    by code_simp+
  from embed_features_rolling_codes[OF ns(1) h(1) _ wf(1), of 3 dna_class] long
  obtain st' where st':
    "embed_features dna_class ?st (int 3) = (Inr (), st')"
    "length (features st') = length (features ?st)"
    "\<forall>i<length (features ?st).
        vlen (features st' ! i) = vlen (features ?st ! i) - int 3 + 1 \<and>
        vector (features st' ! i) ! 0
          = foldl (\<lambda>prev s. push_bit (get_num_bits dna_class (alphabet ?st)) prev OR s) 0
              (map (remap_cell dna_class (alphabet ?st)) (take 3 (vector (features ?st ! i)))) \<and>
        ((\<forall>s\<in>set (take 3 (vector (features ?st ! i))).
             take_bit (get_num_bits dna_class (alphabet ?st)) (remap_cell dna_class (alphabet ?st) s)
               = remap_cell dna_class (alphabet ?st) s) \<longrightarrow>
           take_bit (3 * get_num_bits dna_class (alphabet ?st)) (vector (features st' ! i) ! 0)
             = vector (features st' ! i) ! 0) \<and>
        (\<forall>j. 0 < j \<and> int j < vlen (features ?st ! i) - int 3 + 1 \<longrightarrow>
            vector (features st' ! i) ! j
              = take_bit (3 * get_num_bits dna_class (alphabet ?st))
                  (push_bit (get_num_bits dna_class (alphabet ?st)) (vector (features st' ! i) ! (j - 1))
                     OR remap_cell dna_class (alphabet ?st) (vector (features ?st ! i) ! (j + 3 - 1))))"
    by auto
  have l: "length (features ?st) = 1" "vlen (features ?st ! 0) = 4"
    by (simp_all add: f SGVector_of_def)
  have t3: "take 3 (vector (features ?st ! 0)) = [67, 65, 71]"
    by (simp add: vec)
  have fits: "\<forall>s\<in>set (take 3 (vector (features ?st ! 0))).
             take_bit 2 (remap_cell dna_class (alphabet ?st) s) = remap_cell dna_class (alphabet ?st) s"
    unfolding t3 by (simp add: r)
  have zero: "0 < length (features ?st)"
    using l(1) by simp
  note all = st'(3)[rule_format, OF zero, unfolded nb]
  from all l(2) have v: "vlen (features st' ! 0) = 2"
    by simp
  from all have c0: "vector (features st' ! 0) ! 0 = 18"
    unfolding t3 by (simp add: r)
  from all fits have "take_bit (3 * 2) (vector (features st' ! 0) ! 0) = vector (features st' ! 0) ! 0"
    by blast
  then have m0: "take_bit 6 (vector (features st' ! 0) ! 0) = vector (features st' ! 0) ! 0"
    by simp
  from all have "\<forall>j. 0 < j \<and> int j < vlen (features ?st ! 0) - int 3 + 1 \<longrightarrow>
            vector (features st' ! 0) ! j
              = take_bit (3 * 2)
                  (push_bit 2 (vector (features st' ! 0) ! (j - 1))
                     OR remap_cell dna_class (alphabet ?st) (vector (features ?st ! 0) ! (j + 3 - 1)))"
    by blast
  note rec = this[rule_format, of 1]
  have c1: "vector (features st' ! 0) ! 1 = 11"
    using rec l(2) by (simp add: c0 vec r)
  have sh: "fst (embed_features dna_class ?sh (int 3)) = Inl ShogunException"
    using embed_features_rolling_codes[OF ns(2) h(2) _ wf(2), of 3 dna_class] short by simp
  show ?thesis
    using st'(1,2) l(1) v c0 m0 c1 sh by simp
qed

text \<open>
  The first code is not masked.  On a 16-bit store holding \<open>NAC\<close>, whose first symbol is
  outside the alphabet and is remapped to 255, the order 2 gives the codes 1020 and 1:
  position \<open>0\<close> is \<open>255 << 2\<close>, not its four low bits, which are 12.
\<close>

theorem embed_features_first_code_unmasked:
  "\<not> has_subsets ((store_of 0 [[78, 65, 67 :: 16 word]])
             \<lparr>alphabet := fold add_string_to_histogram [[78, 65, 67 :: 16 word]] (new_CAlphabet 0)\<rparr>) \<and>
   0 < get_num_symbols_in_histogram (alphabet ((store_of 0 [[78, 65, 67 :: 16 word]])
             \<lparr>alphabet := fold add_string_to_histogram [[78, 65, 67 :: 16 word]] (new_CAlphabet 0)\<rparr>)) \<and>
   fst (embed_features dna_class
          ((store_of 0 [[78, 65, 67 :: 16 word]])
             \<lparr>alphabet := fold add_string_to_histogram [[78, 65, 67 :: 16 word]] (new_CAlphabet 0)\<rparr>) 2)
     = Inr () \<and>
   map elements (features (snd (embed_features dna_class
          ((store_of 0 [[78, 65, 67 :: 16 word]])
             \<lparr>alphabet := fold add_string_to_histogram [[78, 65, 67 :: 16 word]] (new_CAlphabet 0)\<rparr>) 2)))
     = [[1020, 1]] \<and>
   take_bit (2 * 2) (1020 :: 16 word) = 12"
proof -
  let ?st = "(store_of 0 [[78, 65, 67 :: 16 word]])
             \<lparr>alphabet := fold add_string_to_histogram [[78, 65, 67 :: 16 word]] (new_CAlphabet 0)\<rparr>"
  have ns: "\<not> has_subsets ?st"
    by (simp add: store_of_def empty_store_def has_subsets_def)
  have h: "0 < get_num_symbols_in_histogram (alphabet ?st)"
    by code_simp
  have lp: "embed_loop dna_class ?st 2 (get_num_bits dna_class (alphabet ?st))
               (all_ones (nat (2 * int (get_num_bits dna_class (alphabet ?st))))) (features ?st) []
              = (None, [\<lparr>vector = [1020, 1, 1], vlen = 2\<rparr>])"
    by code_simp
  note r = embed_features_features[OF ns h lp]
  have t: "take_bit (2 * 2) (1020 :: 16 word) = 12"
    by simp
  show ?thesis
    using ns h r t by (simp add: elements_def)
qed

section \<open>Properties of the FASTQ loader\<close>

lemma map_nth_fun: "map (\<lambda>j. g (s ! j)) [0..<length s] = map g s"
proof -
  have "map (\<lambda>j. g (s ! j)) [0..<length s] = map g (map (\<lambda>j. s ! j) [0..<length s])"
    by (simp add: comp_def)
  then show ?thesis by (simp add: map_nth)
qed

lemma get_line_in:
  "offs < length f \<Longrightarrow> get_line f offs = (Some (f ! offs), length (f ! offs), Suc offs)"
  by (simp add: get_line_def)

lemma fastq_read_packed:
  assumes "4 * i + 3 < length f" "length (f ! (4 * i + 1)) = k" "0 < k" "order st = int k"
  shows "fastq_read C st f ign True i (4 * i, [v])
           = Inr (4 * Suc i, [v\<lparr>vector := (vector v)[i := packed_read C st (f ! (4 * i + 1))]\<rparr>])"
proof -
  have m: "map (\<lambda>j. ucast (remap_to_bin C (alphabet st) (f ! (4 * i + 1) ! j)) :: 'a word) [0..<k]
             = map (\<lambda>c. ucast (remap_to_bin C (alphabet st) c)) (f ! (4 * i + 1))"
    using map_nth_fun[of "\<lambda>c. ucast (remap_to_bin C (alphabet st) c) :: 'a word" "f ! (4 * i + 1)"]
    unfolding assms(2) .
  show ?thesis
    unfolding fastq_read_def
    using assms m by (simp add: get_line_in packed_read_def)
qed

lemma fastq_read_mismatch:
  assumes "4 * i + 3 < length f" "int (length (f ! (4 * i + 1))) \<noteq> order st"
  shows "fastq_read C st f ign True i (4 * i, strings) = Inl ShogunException"
  unfolding fastq_read_def using assms by (simp add: get_line_in)

lemma fastq_read_empty:
  assumes "4 * i + 3 < length f" "length (f ! (4 * i + 1)) = 0"
  shows "fastq_read C st f ign bitremap i (4 * i, strings) = Inl ShogunException"
  unfolding fastq_read_def using assms by (simp add: get_line_in)

lemma fastq_loop_packed:
  assumes ord: "order st = int k" and k: "0 < k" and len: "length f = 4 * n"
    and reads: "\<forall>i<n. length (f ! (4 * i + 1)) = k"
  shows "i0 + d = n \<Longrightarrow> length (vector v) = n \<Longrightarrow>
         \<exists>v'. fastq_loop C st f ign True [i0..<n] (4 * i0, [v]) = Inr (4 * n, [v']) \<and>
              vlen v' = vlen v \<and> length (vector v') = n \<and>
              (\<forall>i. i0 \<le> i \<and> i < n \<longrightarrow> vector v' ! i = packed_read C st (f ! (4 * i + 1))) \<and>
              (\<forall>i<i0. vector v' ! i = vector v ! i)"
proof (induction d arbitrary: i0 v)
  case 0
  then show ?case by auto
next
  case (Suc d)
  then have i0: "i0 < n" by simp
  let ?v1 = "v\<lparr>vector := (vector v)[i0 := packed_read C st (f ! (4 * i0 + 1))]\<rparr>"
  have rd: "fastq_read C st f ign True i0 (4 * i0, [v]) = Inr (4 * Suc i0, [?v1])"
    using i0 len reads by (intro fastq_read_packed[OF _ _ k ord]) simp_all
  have "Suc i0 + d = n" "length (vector ?v1) = n" using Suc.prems by simp_all
  from Suc.IH[OF this] obtain v' where
    v': "fastq_loop C st f ign True [Suc i0..<n] (4 * Suc i0, [?v1]) = Inr (4 * n, [v'])"
      "vlen v' = vlen ?v1" "length (vector v') = n"
      "\<forall>i. Suc i0 \<le> i \<and> i < n \<longrightarrow> vector v' ! i = packed_read C st (f ! (4 * i + 1))"
      "\<forall>i<Suc i0. vector v' ! i = vector ?v1 ! i"
    by blast
  have at: "vector v' ! i0 = packed_read C st (f ! (4 * i0 + 1))"
    using v'(5) i0 Suc.prems(2) by simp
  have "\<forall>i. i0 \<le> i \<and> i < n \<longrightarrow> vector v' ! i = packed_read C st (f ! (4 * i + 1))"
  proof (intro allI impI)
    fix i assume "i0 \<le> i \<and> i < n"
    then show "vector v' ! i = packed_read C st (f ! (4 * i + 1))"
      using v'(4) at by (cases "i = i0") simp_all
  qed
  moreover have "\<forall>i<i0. vector v' ! i = vector v ! i"
    using v'(5) by simp
  ultimately show ?case
    using v'(1,2,3) rd i0 by (simp add: upt_conv_Cons)
qed

lemma fastq_loop_mismatch:
  assumes len: "length f = 4 * n"
  shows "i0 + d = n \<Longrightarrow> \<exists>i. i0 \<le> i \<and> i < n \<and> int (length (f ! (4 * i + 1))) \<noteq> order st \<Longrightarrow>
         fastq_loop C st f ign True [i0..<n] (4 * i0, [v]) = Inl ShogunException"
proof (induction d arbitrary: i0 v)
  case 0
  then show ?case by auto
next
  case (Suc d)
  then have i0: "i0 < n" by simp
  have in_file: "4 * i0 + 3 < length f" using i0 len by simp
  show ?case
  proof (cases "int (length (f ! (4 * i0 + 1))) \<noteq> order st")
    case True
    then show ?thesis
      using i0 by (simp add: upt_conv_Cons fastq_read_mismatch[OF in_file True])
  next
    case False
    then have eq: "order st = int (length (f ! (4 * i0 + 1)))" by simp
    have later: "\<exists>i. Suc i0 \<le> i \<and> i < n \<and> int (length (f ! (4 * i + 1))) \<noteq> order st"
    proof -
      from Suc.prems(2) obtain i where i: "i0 \<le> i" "i < n"
        "int (length (f ! (4 * i + 1))) \<noteq> order st" by blast
      then have "i \<noteq> i0" using False by auto
      then show ?thesis using i by (intro exI[of _ i]) simp
    qed
    show ?thesis
    proof (cases "length (f ! (4 * i0 + 1)) = 0")
      case True
      then show ?thesis
        using i0 by (simp add: upt_conv_Cons fastq_read_empty[OF in_file True])
    next
      case False
      then have k: "0 < length (f ! (4 * i0 + 1))" by simp
      have rd: "fastq_read C st f ign True i0 (4 * i0, [v])
                  = Inr (4 * Suc i0, [v\<lparr>vector := (vector v)[i0 := packed_read C st (f ! (4 * i0 + 1))]\<rparr>])"
        by (rule fastq_read_packed[OF in_file refl k eq])
      have "Suc i0 + d = n" using Suc.prems(1) by simp
      from Suc.IH[OF this later] show ?thesis
        using rd i0 by (simp add: upt_conv_Cons)
    qed
  qed
qed


lemma load_fastq_file_bitremap:
  assumes len: "length f = 4 * n"
  shows "\<exists>st4. alphabet st4 = new_CAlphabet (DNA C) \<and>
           order st4 = (if n = 0 then 0 else int (length (f ! 1))) \<and>
           load_fastq_file C uninit st f ign True
             = (case fastq_loop C st4 f ign True [0..<n] (0, [SGVector_alloc uninit (int n)]) of
                  Inl e \<Rightarrow> (Inl e, st4)
                | Inr (_, strings') \<Rightarrow> (Inr True, st4\<lparr>features := strings'\<rparr>))"
proof -
  define st2 where "st2 = snd (cleanup (remove_all_subsets st))"
  have cl: "cleanup (remove_all_subsets st) = (Inr (), st2)"
    by (simp add: st2_def cleanup_eq)
  define st3 where "st3 = st2\<lparr>alphabet := new_CAlphabet (DNA C)\<rparr>"
  define ord where "ord = (if n = 0 then 0 else int (length (f ! 1)))"
  define st4 where "st4 = st3\<lparr>order := ord,
                              original_num_symbols := get_num_symbols_a C (alphabet st3)\<rparr>"
  have num: "get_num_lines f mod 4 = 0" "get_num_lines f div 4 = int n"
    using len by (simp_all add: get_num_lines_def)
  have lines: "(let (_, len1, offs1) = get_line f 0; (_, len, offs2) = get_line f offs1
                in (st3\<lparr>order := int len,
                        original_num_symbols := get_num_symbols_a C (alphabet st3)\<rparr>,
                    [SGVector_alloc uninit (int n)]))
               = (st4, [SGVector_alloc uninit (int n)])"
  proof (cases "n = 0")
    case True
    then have "f = []" using len by simp
    then show ?thesis by (simp add: get_line_def st4_def ord_def True)
  next
    case False
    then have "0 < length f" "1 < length f" using len by simp_all
    then show ?thesis using False by (simp add: get_line_in st4_def ord_def)
  qed
  have "load_fastq_file C uninit st f ign True
             = (case fastq_loop C st4 f ign True [0..<n] (0, [SGVector_alloc uninit (int n)]) of
                  Inl e \<Rightarrow> (Inl e, st4)
                | Inr (_, strings') \<Rightarrow> (Inr True, st4\<lparr>features := strings'\<rparr>))"
    unfolding load_fastq_file_def Let_def num
    by (simp only: cl prod.case sum.case if_True if_False simp_thms st3_def[symmetric]
        lines[unfolded Let_def] nat_int)
  moreover have "alphabet st4 = new_CAlphabet (DNA C)" by (simp add: st4_def st3_def)
  moreover have "order st4 = (if n = 0 then 0 else int (length (f ! 1)))"
    by (simp add: st4_def ord_def)
  ultimately show ?thesis by blast
qed

text \<open>
  Claim C6, as amended.  For a FASTQ source of \<open>n\<close> reads (\<open>4 n\<close> lines, read \<open>i\<close> on
  line \<open>4 i + 1\<close>) all of the same length \<open>k \<ge> 1\<close>, loading in bit-remap mode succeeds
  and leaves a store with the DNA alphabet and exactly one sequence, of length \<open>n\<close>,
  whose entry \<open>i\<close> is \<^verbatim>\<open>embed_word\<close> of the alphabet-remapped read \<open>i\<close>.  And if some
  read has a length other than that of the first read, the load fails.
\<close>

theorem load_fastq_bitremap_packs_reads:
  fixes st :: "'a::len word CStringFeatures"
  shows
  "(length f = 4 * n \<and> 0 < k \<and> (\<forall>i<n. length (f ! (4 * i + 1)) = k) \<longrightarrow>
      (\<exists>st'. load_fastq_file C uninit st f ignore_invalid True = (Inr True, st') \<and>
         alphabet st' = new_CAlphabet (DNA C) \<and>
         length (features st') = 1 \<and> vlen (features st' ! 0) = int n \<and>
         (\<forall>i<n. vector (features st' ! 0) ! i
                  = embed_word C st'
                      (map (\<lambda>c. ucast (remap_to_bin C (alphabet st') c)) (f ! (4 * i + 1))) k))) \<and>
   (length f = 4 * n \<and> (\<exists>i<n. length (f ! (4 * i + 1)) \<noteq> length (f ! 1)) \<longrightarrow>
      fst (load_fastq_file C uninit st f ignore_invalid True) = Inl ShogunException)"
proof (intro conjI impI)
  assume a: "length f = 4 * n \<and> 0 < k \<and> (\<forall>i<n. length (f ! (4 * i + 1)) = k)"
  then have len: "length f = 4 * n" and k: "0 < k"
    and reads: "\<forall>i<n. length (f ! (4 * i + 1)) = k" by simp_all
  from load_fastq_file_bitremap[OF len, of C uninit st ignore_invalid] obtain st4 where
    st4: "alphabet st4 = new_CAlphabet (DNA C)"
      "order st4 = (if n = 0 then 0 else int (length (f ! 1)))"
      "load_fastq_file C uninit st f ignore_invalid True
             = (case fastq_loop C st4 f ignore_invalid True [0..<n] (0, [SGVector_alloc uninit (int n)]) of
                  Inl e \<Rightarrow> (Inl e, st4)
                | Inr (_, strings') \<Rightarrow> (Inr True, st4\<lparr>features := strings'\<rparr>))"
    by blast
  let ?v = "SGVector_alloc uninit (int n) :: 'a word SGVector"
  have "\<exists>v'. fastq_loop C st4 f ignore_invalid True [0..<n] (0, [?v]) = Inr (4 * n, [v']) \<and>
              vlen v' = int n \<and>
              (\<forall>i<n. vector v' ! i = packed_read C st4 (f ! (4 * i + 1)))"
  proof (cases "n = 0")
    case True
    then show ?thesis by (simp add: SGVector_alloc_def)
  next
    case False
    then have "length (f ! 1) = k" using reads[rule_format, of 0] by simp
    then have ord: "order st4 = int k" using st4(2) False by simp
    have lv: "length (vector ?v) = n" by (simp add: SGVector_alloc_def)
    from fastq_loop_packed[OF ord k len reads, of 0 n ?v C ignore_invalid] lv
    obtain v' where "fastq_loop C st4 f ignore_invalid True [0..<n] (4 * 0, [?v]) = Inr (4 * n, [v'])"
      "vlen v' = vlen ?v"
      "\<forall>i. 0 \<le> i \<and> i < n \<longrightarrow> vector v' ! i = packed_read C st4 (f ! (4 * i + 1))"
      by auto
    then show ?thesis by (intro exI[of _ v']) (simp add: SGVector_alloc_def)
  qed
  then obtain v' where v': "fastq_loop C st4 f ignore_invalid True [0..<n] (0, [?v]) = Inr (4 * n, [v'])"
    "vlen v' = int n" "\<forall>i<n. vector v' ! i = packed_read C st4 (f ! (4 * i + 1))"
    by blast
  let ?st' = "st4\<lparr>features := [v']\<rparr>"
  have res: "load_fastq_file C uninit st f ignore_invalid True = (Inr True, ?st')"
    unfolding st4(3) v'(1) by simp
  have al: "alphabet ?st' = alphabet st4" by simp
  have "\<forall>i<n. vector (features ?st' ! 0) ! i
                  = embed_word C ?st'
                      (map (\<lambda>c. ucast (remap_to_bin C (alphabet ?st') c)) (f ! (4 * i + 1))) k"
    using v'(3) reads by (simp add: packed_read_def embed_word_alphabet[OF al])
  then show "\<exists>st'. load_fastq_file C uninit st f ignore_invalid True = (Inr True, st') \<and>
         alphabet st' = new_CAlphabet (DNA C) \<and>
         length (features st') = 1 \<and> vlen (features st' ! 0) = int n \<and>
         (\<forall>i<n. vector (features st' ! 0) ! i
                  = embed_word C st'
                      (map (\<lambda>c. ucast (remap_to_bin C (alphabet st') c)) (f ! (4 * i + 1))) k)"
    using res v'(2) st4(1) by (intro exI[of _ ?st']) simp
next
  assume b: "length f = 4 * n \<and> (\<exists>i<n. length (f ! (4 * i + 1)) \<noteq> length (f ! 1))"
  then have len: "length f = 4 * n" by simp
  from b obtain i where i: "i < n" "length (f ! (4 * i + 1)) \<noteq> length (f ! 1)" by blast
  from load_fastq_file_bitremap[OF len, of C uninit st ignore_invalid] obtain st4 where
    st4: "order st4 = (if n = 0 then 0 else int (length (f ! 1)))"
      "load_fastq_file C uninit st f ignore_invalid True
             = (case fastq_loop C st4 f ignore_invalid True [0..<n] (0, [SGVector_alloc uninit (int n)]) of
                  Inl e \<Rightarrow> (Inl e, st4)
                | Inr (_, strings') \<Rightarrow> (Inr True, st4\<lparr>features := strings'\<rparr>))"
    by blast
  have "order st4 = int (length (f ! 1))" using st4(1) i(1) by simp
  then have "\<exists>i. 0 \<le> i \<and> i < n \<and> int (length (f ! (4 * i + 1))) \<noteq> order st4"
    using i by (intro exI[of _ i]) simp
  from fastq_loop_mismatch[OF len _ this, of n C ignore_invalid "SGVector_alloc uninit (int n)"]
  have "fastq_loop C st4 f ignore_invalid True [0..<n] (0, [SGVector_alloc uninit (int n)])
          = Inl ShogunException" by simp
  then show "fst (load_fastq_file C uninit st f ignore_invalid True) = Inl ShogunException"
    unfolding st4(2) by simp
qed

theorem load_fastq_bitremap_packs_reads_witness:
  "(\<exists>st'. load_fastq_file dna_class 0 (empty_store 0 :: 8 word CStringFeatures)
            [[64, 114], [65, 67], [43], [33, 33], [64, 115], [71, 84], [43], [33, 33]] False True
          = (Inr True, st') \<and>
         length (features st') = 1 \<and> vlen (features st' ! 0) = 2 \<and>
         vector (features st' ! 0) ! 0 = 1 \<and> vector (features st' ! 0) ! 1 = 11) \<and>
   fst (load_fastq_file dna_class 0 (empty_store 0 :: 8 word CStringFeatures)
          [[64, 114], [65, 67], [43], [33, 33], [64, 115], [71], [43], [33]] False True)
     = Inl ShogunException"
proof -
  let ?f = "[[64, 114], [65, 67], [43], [33, 33], [64, 115], [71, 84], [43], [33, 33]] :: uint8 list list"
  let ?g = "[[64, 114], [65, 67], [43], [33, 33], [64, 115], [71], [43], [33]] :: uint8 list list"
  let ?st = "empty_store 0 :: 8 word CStringFeatures"
  have reads: "\<forall>i<2. length (?f ! (4 * i + 1)) = 2"
    by (simp add: All_less_Suc numeral_2_eq_2)
  have bad: "\<exists>i<2. length (?g ! (4 * i + 1)) \<noteq> length (?g ! 1)"
    by (intro exI[of _ 1]) simp
  from load_fastq_bitremap_packs_reads[of ?f 2 2 dna_class 0 ?st False] reads
  obtain st' where st':
    "load_fastq_file dna_class 0 ?st ?f False True = (Inr True, st')"
    "alphabet st' = new_CAlphabet (DNA dna_class)"
    "length (features st') = 1" "vlen (features st' ! 0) = 2"
    "\<forall>i<2. vector (features st' ! 0) ! i
              = embed_word dna_class st'
                  (map (\<lambda>c. ucast (remap_to_bin dna_class (alphabet st') c)) (?f ! (4 * i + 1))) 2"
    by auto
  have e: "embed_word dna_class st' xs 2 = embed_word dna_class ?st xs 2" for xs
    by (rule embed_word_alphabet) (simp add: st'(2) empty_store_def dna_class_def)
  have c0: "vector (features st' ! 0) ! 0 = 1"
    using st'(5)[rule_format, of 0]
    by (simp add: e st'(2)) code_simp
  have c1: "vector (features st' ! 0) ! 1 = 11"
    using st'(5)[rule_format, of 1]
    by (simp add: e st'(2)) code_simp
  have "fst (load_fastq_file dna_class 0 ?st ?g False True) = Inl ShogunException"
    using load_fastq_bitremap_packs_reads[of ?g 2 2 dna_class 0 ?st False] bad by simp
  then show ?thesis using st'(1,3,4) c0 c1 by simp
qed

text \<open>
  The claim as stated, for every common length \<open>k\<close>, fails at \<open>k = 0\<close>: one read, and
  that read empty, is rejected as a read error.
\<close>

theorem load_fastq_bitremap_empty_reads:
  "fst (load_fastq_file dna_class 0 (empty_store 0 :: 8 word CStringFeatures)
          [[64, 114], [], [43], []] False True) = Inl ShogunException"
  by code_simp

section \<open>Properties of the ASCII loader\<close>

text \<open>
  Claim C5.  The ASCII loader on the lines \<open>AAA\<close>, \<open>CG\<close>, \<open>TTTT\<close>, without remapping, is
  claimed to give three sequences of lengths 3, 2 and 4.  On the file of these three
  lines, each ended by a newline, the first pass sets the block size to 5, the record \<open>CG\<close> is
  split over two blocks, its vector is allocated with one cell, and the second cell is
  written past the allocation: the load stops with the second sequence of declared length 1.
  Without the final newline the last line is not counted by the first pass and its record
  is stored past the end of \<^verbatim>\<open>features\<close>.  On the file of the one line \<open>AAA\<close> the load succeeds
  and the histogram counts every byte twice.
\<close>

theorem load_ascii_file_three_lines:
  "map_option (\<lambda>(e, st). (e, map vlen (features st), map vector (features st)))
     (load_ascii_file dna_class 0 (empty_store 0 :: 8 word CStringFeatures)
        (Some [65, 65, 65, 10, 67, 71, 10, 84, 84, 84, 84, 10]) False 0 0)
     = Some (Inl OutOfBounds, [3, 1, 0], [[65, 65, 65], [67], []]) \<and>
   map_option (\<lambda>(e, st). (e, map vlen (features st), map vector (features st)))
     (load_ascii_file dna_class 0 (empty_store 0 :: 8 word CStringFeatures)
        (Some [65, 65, 65, 10, 67, 71, 10, 84, 84, 84, 84]) False 0 0)
     = Some (Inl OutOfBounds, [3, 2], [[65, 65, 65], [67, 71]]) \<and>
   map_option (\<lambda>(e, st). (e, map elements (features st),
                            map (histogram (alphabet st)) [65, 67, 71, 84]))
     (load_ascii_file dna_class 0 (empty_store 0 :: 8 word CStringFeatures)
        (Some [65, 65, 65, 10]) False 0 0)
     = Some (Inr (), [[65, 65, 65]], [6, 0, 0, 0])"
proof -
  let ?init = "\<lparr>block_offs = 0, old_block_offs = 0, cs_num_vectors = 0, required_blocksize = 0\<rparr>"
  let ?f3 = "[65, 65, 65, 10, 67, 71, 10, 84, 84, 84, 84, 10] :: uint8 list"
  let ?f2 = "[65, 65, 65, 10, 67, 71, 10, 84, 84, 84, 84] :: uint8 list"
  let ?f1 = "[65, 65, 65, 10] :: uint8 list"
  let ?st = "snd (cleanup (remove_all_subsets (empty_store 0 :: 8 word CStringFeatures)))"
  have m: "min (1024 * 1024) (length ?f3) = 12" "min (1024 * 1024) (length ?f2) = 11"
    "min (1024 * 1024) (length ?f1) = 4"
    by simp_all
  have c3: "count_lines ?f3 12 0 ?init
              = Some \<lparr>block_offs = 12, old_block_offs = 12, cs_num_vectors = 3, required_blocksize = 5\<rparr>"
    by code_simp
  have c2: "count_lines ?f2 11 0 ?init
              = Some \<lparr>block_offs = 11, old_block_offs = 7, cs_num_vectors = 2, required_blocksize = 4\<rparr>"
    by code_simp
  have c1: "count_lines ?f1 4 0 ?init
              = Some \<lparr>block_offs = 4, old_block_offs = 4, cs_num_vectors = 1, required_blocksize = 4\<rparr>"
    by code_simp
  have "map_option (\<lambda>(e, rs). (e, map vlen (rs_features rs), map vector (rs_features rs)))
              (read_lines dna_class (0 :: 8 word) False ?f3 5 0
                 \<lparr>rs_features = replicate (nat 3) SGVector_empty, rs_lines = 0,
                  rs_overflow = replicate 5 0, rs_overflow_len = 0,
                  rs_alpha = new_CAlphabet 0, rs_alpha_bin = new_CAlphabet 0\<rparr>)
            = Some (Some OutOfBounds, [3, 1, 0], [[65, 65, 65], [67], []])"
    by code_simp
  then obtain rs3 where r3: "read_lines dna_class (0 :: 8 word) False ?f3 5 0
                 \<lparr>rs_features = replicate (nat 3) SGVector_empty, rs_lines = 0,
                  rs_overflow = replicate 5 0, rs_overflow_len = 0,
                  rs_alpha = new_CAlphabet 0, rs_alpha_bin = new_CAlphabet 0\<rparr>
                 = Some (Some OutOfBounds, rs3)"
      "map vlen (rs_features rs3) = [3, 1, 0]"
      "map vector (rs_features rs3) = [[65, 65, 65], [67], []]"
    by auto
  have "map_option (\<lambda>(e, rs). (e, map vlen (rs_features rs), map vector (rs_features rs)))
              (read_lines dna_class (0 :: 8 word) False ?f2 4 0
                 \<lparr>rs_features = replicate (nat 2) SGVector_empty, rs_lines = 0,
                  rs_overflow = replicate 4 0, rs_overflow_len = 0,
                  rs_alpha = new_CAlphabet 0, rs_alpha_bin = new_CAlphabet 0\<rparr>)
            = Some (Some OutOfBounds, [3, 2], [[65, 65, 65], [67, 71]])"
    by code_simp
  then obtain rs2 where r2: "read_lines dna_class (0 :: 8 word) False ?f2 4 0
                 \<lparr>rs_features = replicate (nat 2) SGVector_empty, rs_lines = 0,
                  rs_overflow = replicate 4 0, rs_overflow_len = 0,
                  rs_alpha = new_CAlphabet 0, rs_alpha_bin = new_CAlphabet 0\<rparr>
                 = Some (Some OutOfBounds, rs2)"
      "map vlen (rs_features rs2) = [3, 2]"
      "map vector (rs_features rs2) = [[65, 65, 65], [67, 71]]"
    by auto
  have "map_option (\<lambda>(e, rs). (e, map elements (rs_features rs),
                                     map (histogram (rs_alpha rs)) [65, 67, 71, 84]))
              (read_lines dna_class (0 :: 8 word) False ?f1 4 0
                 \<lparr>rs_features = replicate (nat 1) SGVector_empty, rs_lines = 0,
                  rs_overflow = replicate 4 0, rs_overflow_len = 0,
                  rs_alpha = new_CAlphabet 0, rs_alpha_bin = new_CAlphabet 0\<rparr>)
            = Some (None, [[65, 65, 65]], [6, 0, 0, 0])"
    by code_simp
  then obtain rs1 where r1: "read_lines dna_class (0 :: 8 word) False ?f1 4 0
                 \<lparr>rs_features = replicate (nat 1) SGVector_empty, rs_lines = 0,
                  rs_overflow = replicate 4 0, rs_overflow_len = 0,
                  rs_alpha = new_CAlphabet 0, rs_alpha_bin = new_CAlphabet 0\<rparr>
                 = Some (None, rs1)"
      "map elements (rs_features rs1) = [[65, 65, 65]]"
      "map (histogram (rs_alpha rs1)) [65, 67, 71, 84] = [6, 0, 0, 0]"
    by auto
  have a: "map_option (\<lambda>(e, st). (e, map vlen (features st), map vector (features st)))
     (load_ascii_file dna_class 0 (empty_store 0 :: 8 word CStringFeatures) (Some ?f3) False 0 0)
     = Some (Inl OutOfBounds, [3, 1, 0], [[65, 65, 65], [67], []])"
    unfolding load_ascii_file_def Let_def cleanup_eq
    apply (simp only: m c3 r3(1) option.case prod.case sum.case count_state.simps option.map)
    using r3(2,3) by simp
  have b: "map_option (\<lambda>(e, st). (e, map vlen (features st), map vector (features st)))
     (load_ascii_file dna_class 0 (empty_store 0 :: 8 word CStringFeatures) (Some ?f2) False 0 0)
     = Some (Inl OutOfBounds, [3, 2], [[65, 65, 65], [67, 71]])"
    unfolding load_ascii_file_def Let_def cleanup_eq
    apply (simp only: m c2 r2(1) option.case prod.case sum.case count_state.simps option.map)
    using r2(2,3) by simp
  have c: "map_option (\<lambda>(e, st). (e, map elements (features st),
                            map (histogram (alphabet st)) [65, 67, 71, 84]))
     (load_ascii_file dna_class 0 (empty_store 0 :: 8 word CStringFeatures) (Some ?f1) False 0 0)
     = Some (Inr (), [[65, 65, 65]], [6, 0, 0, 0])"
    unfolding load_ascii_file_def Let_def cleanup_eq
    apply (simp only: m c1 r1(1) option.case prod.case sum.case count_state.simps option.map)
    using r1(2,3) by simp
  show ?thesis using a b c by blast
qed

section \<open>Properties of the directory loader\<close>










text \<open>
  The bytes read do not reach the sequences (line 757): the files of \<open>d\<close> hold \<open>AC\<close> and
  \<open>G\<close>, and with cells allocated as \<open>A\<close> the store holds \<open>AA\<close> and \<open>A\<close>.
\<close>

lemma load_from_directory_keeps_allocated_cells:
  "map dir_contents [''d/a'', ''d/b''] = [[65, 67], [71]] \<and>
   map vector (features (snd (load_from_directory dna_class (dir_fs []) (65 :: 8 word) 1
                                (empty_store 0) ''d''))) = [[65, 65], [65]]"
  by code_simp


end
